theory Spec2Isabelle
  imports Main
begin

section \<open>PySnake: the game state of \<open>SnakeBoard\<close> (src/PySnake.py)\<close>

subsection \<open>Python values, exceptions and list indexing\<close>

text \<open>
  The exceptions the modelled code can raise: the repository's own
  \<open>InvalidGridSizeException\<close>, and Python's \<open>IndexError\<close> (list index out of range) and
  \<open>ValueError\<close> (\<open>random.randint\<close> on an empty range).
\<close>

datatype error = InvalidGridSizeException | IndexError | ValueError

text \<open>What a Python call hands back where the source declares \<open>-> bool\<close>: a bool, or
  \<open>None\<close> when the body ends without a \<open>return\<close>.\<close>

datatype pyret = PyNone | PyBool bool

type_synonym board = "string list list"
type_synonym pos = "int \<times> int"

text \<open>Python list indexing \<open>xs[i]\<close>: a negative index counts from the end, an index out
  of range raises \<open>IndexError\<close>.\<close>

definition py_index :: "'a list \<Rightarrow> int \<Rightarrow> error + nat" where
  "py_index xs i =
     (let n = int (length xs); j = (if i < 0 then i + n else i)
      in if 0 \<le> j \<and> j < n then Inr (nat j) else Inl IndexError)"

definition getitem :: "'a list \<Rightarrow> int \<Rightarrow> error + 'a" where
  "getitem xs i = (case py_index xs i of Inl e \<Rightarrow> Inl e | Inr k \<Rightarrow> Inr (xs ! k))"

definition setitem :: "'a list \<Rightarrow> int \<Rightarrow> 'a \<Rightarrow> error + 'a list" where
  "setitem xs i v = (case py_index xs i of Inl e \<Rightarrow> Inl e | Inr k \<Rightarrow> Inr (xs[k := v]))"

text \<open>\<open>self._board[r][c]\<close> and \<open>self._board[r][c] = v\<close>. The rows are distinct list
  objects (built by a list comprehension), so writing one row changes no other.\<close>

definition board_get :: "board \<Rightarrow> int \<Rightarrow> int \<Rightarrow> error + string" where
  "board_get b r c = (case getitem b r of Inl e \<Rightarrow> Inl e | Inr line \<Rightarrow> getitem line c)"

definition board_set :: "board \<Rightarrow> int \<Rightarrow> int \<Rightarrow> string \<Rightarrow> error + board" where
  "board_set b r c v =
     (case getitem b r of
        Inl e \<Rightarrow> Inl e
      | Inr line \<Rightarrow>
          (case setitem line c v of
             Inl e \<Rightarrow> Inl e
           | Inr line' \<Rightarrow> setitem b r line'))"

text \<open>
  \<open>random.randint(lo, hi)\<close> returns some integer of \<open>[lo, hi]\<close> and raises \<open>ValueError\<close>
  on an empty range. The generator's outcome is an input of the model: each call consumes
  one natural number of entropy and maps it into the range, so every value of the range
  can be drawn and nothing outside it.
\<close>

definition randint :: "int \<Rightarrow> int \<Rightarrow> nat \<Rightarrow> error + int" where
  "randint lo hi e =
     (if hi < lo then Inl ValueError else Inr (lo + int e mod (hi - lo + 1)))"

subsection \<open>The state of a \<open>SnakeBoard\<close>\<close>

text \<open>The attributes of the class, by their names without the leading underscore;
  \<open>_end\<close> is \<open>ended\<close>. Tiles are the strings \<open>S1\<close> (head), \<open>S0\<close> (body), \<open>A\<close> (apple)
  and \<open>N\<close> (nothing).\<close>

record game =
  row :: int
  col :: int
  board :: board
  snake_direction :: pos
  snake_row :: int
  snake_col :: int
  snake :: "pos list"
  snake_length :: int
  ended :: bool
  apple_row :: int
  apple_col :: int
  move_lock :: bool

subsection \<open>\<open>generate_apple\<close>\<close>

text \<open>
  The \<open>while True\<close> loop draws a row and a column until the tile drawn is \<open>N\<close>. It
  consumes two draws per round; \<open>None\<close> says that the loop has not left after all the
  draws given (it is still running).
\<close>

fun generate_apple :: "game \<Rightarrow> nat list \<Rightarrow> (error + game) option" where
  "generate_apple s (e1 # e2 # rng) =
     (case randint 0 (row s - 1) e1 of
        Inl e \<Rightarrow> Some (Inl e)
      | Inr ar \<Rightarrow>
          (case randint 0 (col s - 1) e2 of
             Inl e \<Rightarrow> Some (Inl e)
           | Inr ac \<Rightarrow>
               (case board_get (board s) ar ac of
                  Inl e \<Rightarrow> Some (Inl e)
                | Inr t \<Rightarrow>
                    if t = ''N'' then
                      (case board_set (board s) ar ac ''A'' of
                         Inl e \<Rightarrow> Some (Inl e)
                       | Inr b \<Rightarrow> Some (Inr (s\<lparr>board := b, apple_row := ar, apple_col := ac\<rparr>)))
                    else generate_apple s rng)))"
| "generate_apple s _ = None"

subsection \<open>\<open>__init__\<close>\<close>

definition SnakeBoard_init :: "int \<Rightarrow> int \<Rightarrow> nat list \<Rightarrow> (error + game) option" where
  "SnakeBoard_init r c rng =
     (if r < 2 \<or> c < 2 then Some (Inl InvalidGridSizeException)
      else
        (case rng of
           e1 # e2 # rng' \<Rightarrow>
             (case randint 0 (r - 1) e1 of
                Inl e \<Rightarrow> Some (Inl e)
              | Inr sr \<Rightarrow>
                  (case randint 0 (c - 1) e2 of
                     Inl e \<Rightarrow> Some (Inl e)
                   | Inr sc \<Rightarrow>
                       (case board_set (replicate (nat r) (replicate (nat c) ''N'')) sr sc ''S1'' of
                          Inl e \<Rightarrow> Some (Inl e)
                        | Inr b \<Rightarrow>
                            (case generate_apple
                                    \<lparr>row = r, col = c, board = b, snake_direction = (0, 0),
                                     snake_row = sr, snake_col = sc, snake = [(sr, sc)],
                                     snake_length = 1, ended = False,
                                     apple_row = 0, apple_col = 0, move_lock = False\<rparr> rng' of
                               None \<Rightarrow> None
                             | Some (Inl e) \<Rightarrow> Some (Inl e)
                             | Some (Inr s) \<Rightarrow> Some (Inr (s\<lparr>move_lock := False\<rparr>))))))
         | _ \<Rightarrow> None))"

subsection \<open>\<open>update_direction\<close>\<close>

definition update_direction :: "game \<Rightarrow> pos \<Rightarrow> game" where
  "update_direction s direction =
     (if move_lock s then s
      else
        let s1 = (if snake_direction s = (0, 0) then s\<lparr>snake_direction := direction\<rparr> else s);
            h_direction = fst direction;
            v_direction = snd direction
        in if \<not> (h_direction * (- 1) = fst (snake_direction s1) \<or>
                  v_direction * (- 1) = snd (snake_direction s1))
           then s1\<lparr>snake_direction := direction, move_lock := True\<rparr>
           else s1)"

text \<open>The four directions of \<open>KEY_DICT\<close>: up, down, left, right.\<close>

definition KEY_DICT :: "pos list" where
  "KEY_DICT = [(0, - 1), (0, 1), (- 1, 0), (1, 0)]"

subsection \<open>\<open>next\<close>\<close>

text \<open>The two \<open>for\<close> loops of \<open>next\<close> write one tile per index: the tile of history
  entry \<open>self._snake[i]\<close> for each index of the list, in order.\<close>

fun paint :: "board \<Rightarrow> pos list \<Rightarrow> string \<Rightarrow> int list \<Rightarrow> error + board" where
  "paint b sn v [] = Inr b"
| "paint b sn v (i # idx) =
     (case getitem sn i of
        Inl e \<Rightarrow> Inl e
      | Inr (r, c) \<Rightarrow>
          (case board_set b r c v of
             Inl e \<Rightarrow> Inl e
           | Inr b' \<Rightarrow> paint b' sn v idx))"

text \<open>How the body of \<open>next\<close> ends before the last \<open>if ate_apple\<close>: by one of the two
  \<open>return True\<close>, or having moved, with the value of \<open>ate_apple\<close>.\<close>

datatype step = Crashed game | Moved bool game

definition next_step :: "game \<Rightarrow> error + step" where
  "next_step s0 =
     (let s = s0\<lparr>move_lock := False\<rparr>;
          new_snake_row = snake_row s + snd (snake_direction s);
          new_snake_col = snake_col s + fst (snake_direction s)
      in if \<not> (0 \<le> new_snake_row \<and> new_snake_row < row s) \<or>
            \<not> (0 \<le> new_snake_col \<and> new_snake_col < col s)
         then Inr (Crashed (s\<lparr>ended := True\<rparr>))
         else
           (case board_get (board s) new_snake_row new_snake_col of
              Inl e \<Rightarrow> Inl e
            | Inr t \<Rightarrow>
                if t = ''S0'' then Inr (Crashed (s\<lparr>ended := True\<rparr>))
                else
                  (case board_set (board s) (snake_row s) (snake_col s) ''N'' of
                     Inl e \<Rightarrow> Inl e
                   | Inr b1 \<Rightarrow>
                       (let sn1 = snake s @ [(new_snake_row, new_snake_col)];
                            sn = (if int (length sn1) > snake_length s + 1 then tl sn1 else sn1)
                        in case board_get b1 new_snake_row new_snake_col of
                             Inl e \<Rightarrow> Inl e
                           | Inr t1 \<Rightarrow>
                               (let ate_apple = (t1 = ''A'');
                                    len = (if ate_apple then snake_length s + 1 else snake_length s)
                                in case board_set b1 new_snake_row new_snake_col ''S1'' of
                                     Inl e \<Rightarrow> Inl e
                                   | Inr b2 \<Rightarrow>
                                       (case paint b2 sn ''S0'' (map uminus [2..len]) of
                                          Inl e \<Rightarrow> Inl e
                                        | Inr b3 \<Rightarrow>
                                            (case paint b3 sn ''N''
                                                    (rev [0..int (length sn) - len - 1]) of
                                               Inl e \<Rightarrow> Inl e
                                             | Inr b4 \<Rightarrow>
                                                 Inr (Moved ate_apple
                                                       (s\<lparr>board := b4,
                                                          snake_row := new_snake_row,
                                                          snake_col := new_snake_col,
                                                          snake := sn,
                                                          snake_length := len\<rparr>)))))))))"

definition SnakeBoard_next :: "game \<Rightarrow> nat list \<Rightarrow> (error + pyret \<times> game) option" where
  "SnakeBoard_next s rng =
     (case next_step s of
        Inl e \<Rightarrow> Some (Inl e)
      | Inr (Crashed s') \<Rightarrow> Some (Inr (PyBool True, s'))
      | Inr (Moved ate_apple s') \<Rightarrow>
          if ate_apple then
            (case generate_apple s' rng of
               None \<Rightarrow> None
             | Some (Inl e) \<Rightarrow> Some (Inl e)
             | Some (Inr s'') \<Rightarrow> Some (Inr (PyNone, s'')))
          else Some (Inr (PyNone, s')))"

section \<open>Notions used to state the properties\<close>

text \<open>A position \<open>(r, c)\<close> lies on an \<open>n\<close> by \<open>m\<close> grid; a board has \<open>n\<close> rows of \<open>m\<close>
  tiles each.\<close>

definition in_grid :: "int \<Rightarrow> int \<Rightarrow> pos \<Rightarrow> bool" where
  "in_grid n m p = (0 \<le> fst p \<and> fst p < n \<and> 0 \<le> snd p \<and> snd p < m)"

definition wf_board :: "int \<Rightarrow> int \<Rightarrow> board \<Rightarrow> bool" where
  "wf_board n m b = (int (length b) = n \<and> list_all (\<lambda>line. int (length line) = m) b)"

text \<open>On such a board an in-range read or write raises nothing: \<open>board_get\<close> is \<open>tile\<close> and
  \<open>board_set\<close> is \<open>put\<close> there (lemmas \<open>board_get_in\<close>, \<open>board_set_in\<close>).\<close>

definition tile :: "board \<Rightarrow> pos \<Rightarrow> string" where
  "tile b p = b ! nat (fst p) ! nat (snd p)"

definition put :: "board \<Rightarrow> pos \<Rightarrow> string \<Rightarrow> board" where
  "put b p v = b[nat (fst p) := (b ! nat (fst p))[nat (snd p) := v]]"

text \<open>The positions a loop of \<open>paint\<close> writes: the history entries at the given indices.\<close>

definition cells_of :: "pos list \<Rightarrow> int list \<Rightarrow> pos set" where
  "cells_of sn idx = {p. \<exists>i\<in>set idx. getitem sn i = Inr p}"

text \<open>The last \<open>snake_length\<close> entries of the position history, and the entries before
  them.\<close>

definition live :: "game \<Rightarrow> pos list" where
  "live s = drop (length (snake s) - nat (snake_length s)) (snake s)"

definition stale :: "game \<Rightarrow> pos list" where
  "stale s = take (length (snake s) - nat (snake_length s)) (snake s)"

text \<open>The cells of the grid, row by row; those that carry a given tag; those tagged as
  snake (\<open>S1\<close> or \<open>S0\<close>). All are read with \<open>board_get\<close>, as the code reads the board.\<close>

definition all_cells :: "game \<Rightarrow> pos list" where
  "all_cells s = List.product [0..row s - 1] [0..col s - 1]"

definition tagged :: "game \<Rightarrow> string \<Rightarrow> pos list" where
  "tagged s t = filter (\<lambda>p. board_get (board s) (fst p) (snd p) = Inr t) (all_cells s)"

definition snake_cells :: "game \<Rightarrow> pos list" where
  "snake_cells s =
     filter (\<lambda>p. board_get (board s) (fst p) (snd p) = Inr ''S1'' \<or>
                 board_get (board s) (fst p) (snd p) = Inr ''S0'') (all_cells s)"

text \<open>The state in which \<open>__init__\<close> calls \<open>generate_apple\<close>, for the two draws that place
  the head.\<close>

definition before_apple :: "int \<Rightarrow> int \<Rightarrow> nat \<Rightarrow> nat \<Rightarrow> game" where
  "before_apple r c e1 e2 =
     \<lparr>row = r, col = c,
      board = put (replicate (nat r) (replicate (nat c) ''N'')) (int e1 mod r, int e2 mod c) ''S1'',
      snake_direction = (0, 0), snake_row = int e1 mod r, snake_col = int e2 mod c,
      snake = [(int e1 mod r, int e2 mod c)], snake_length = 1, ended = False,
      apple_row = 0, apple_col = 0, move_lock = False\<rparr>"

text \<open>
  What holds in every state the game can reach. The board has the declared size; the
  history holds \<open>snake_length\<close> or \<open>snake_length + 1\<close> positions of the grid and ends with
  the head; the last \<open>snake_length\<close> of them are distinct; \<open>S0\<close> is exactly on those but
  the last, \<open>S1\<close> nowhere but on the head, whose tile is \<open>S1\<close> or \<open>N\<close>; the direction is
  zero only while the length is one; and the game has not ended.
\<close>

definition game_inv :: "game \<Rightarrow> bool" where
  "game_inv s =
     (2 \<le> row s \<and> 2 \<le> col s \<and> wf_board (row s) (col s) (board s) \<and>
      1 \<le> snake_length s \<and> snake_length s \<le> int (length (snake s)) \<and>
      int (length (snake s)) \<le> snake_length s + 1 \<and>
      (\<forall>p\<in>set (snake s). in_grid (row s) (col s) p) \<and>
      last (snake s) = (snake_row s, snake_col s) \<and>
      distinct (live s) \<and>
      (\<forall>q. in_grid (row s) (col s) q \<longrightarrow>
           (tile (board s) q = ''S0'') = (q \<in> set (butlast (live s)))) \<and>
      (\<forall>q. in_grid (row s) (col s) q \<longrightarrow> tile (board s) q = ''S1'' \<longrightarrow>
           q = (snake_row s, snake_col s)) \<and>
      (tile (board s) (snake_row s, snake_col s) = ''S1'' \<or>
       tile (board s) (snake_row s, snake_col s) = ''N'') \<and>
      (snake_direction s = (0, 0) \<longrightarrow> snake_length s = 1) \<and>
      \<not> ended s)"

text \<open>The head's tile is \<open>S1\<close> and no position occurs twice in the history: what a tick
  that moves the head adds to the invariant.\<close>

definition head_tagged :: "game \<Rightarrow> bool" where
  "head_tagged s = (tile (board s) (snake_row s, snake_col s) = ''S1'' \<and> distinct (snake s))"

text \<open>
  The states a game can reach: from \<open>__init__\<close>, by \<open>update_direction\<close> with one of the
  four directions of \<open>KEY_DICT\<close>, and by a \<open>next\<close> that returns without ending the game.
\<close>

inductive reachable :: "game \<Rightarrow> bool" where
  reach_init: "SnakeBoard_init r c rng = Some (Inr s) \<Longrightarrow> reachable s"
| reach_turn: "reachable s \<Longrightarrow> d \<in> set KEY_DICT \<Longrightarrow> reachable (update_direction s d)"
| reach_tick: "reachable s \<Longrightarrow> SnakeBoard_next s rng = Some (Inr (ret, s')) \<Longrightarrow> \<not> ended s' \<Longrightarrow>
     reachable s'"

text \<open>
  The states the main loop can reach: as above, but \<open>next\<close> is called only once a direction
  is set, as \<open>main\<close> does (it waits for the first arrow key before its first tick).
\<close>

inductive reachable_moving :: "game \<Rightarrow> bool" where
  moving_init: "SnakeBoard_init r c rng = Some (Inr s) \<Longrightarrow> reachable_moving s"
| moving_turn: "reachable_moving s \<Longrightarrow> d \<in> set KEY_DICT \<Longrightarrow>
     reachable_moving (update_direction s d)"
| moving_tick: "reachable_moving s \<Longrightarrow> snake_direction s \<noteq> (0, 0) \<Longrightarrow>
     SnakeBoard_next s rng = Some (Inr (ret, s')) \<Longrightarrow> \<not> ended s' \<Longrightarrow> reachable_moving s'"

subsection \<open>Concrete states\<close>

text \<open>A 2 by 2 board with the head in the corner \<open>(0, 0)\<close>, the apple to its right, moving
  down; and the same game one tick later.\<close>

definition ex_down :: game where
  "ex_down = \<lparr>row = 2, col = 2, board = [[''S1'', ''A''], [''N'', ''N'']],
     snake_direction = (0, 1), snake_row = 0, snake_col = 0, snake = [(0, 0)],
     snake_length = 1, ended = False, apple_row = 0, apple_col = 1, move_lock = False\<rparr>"

definition ex_down_moved :: game where
  "ex_down_moved = \<lparr>row = 2, col = 2, board = [[''N'', ''A''], [''S1'', ''N'']],
     snake_direction = (0, 1), snake_row = 1, snake_col = 0, snake = [(0, 0), (1, 0)],
     snake_length = 1, ended = False, apple_row = 0, apple_col = 1, move_lock = False\<rparr>"

text \<open>A 2 by 2 board as \<open>__init__\<close> leaves it: head in the corner, apple to its right.\<close>

definition ex_init :: game where
  "ex_init = \<lparr>row = 2, col = 2, board = [[''S1'', ''A''], [''N'', ''N'']],
     snake_direction = (0, 0), snake_row = 0, snake_col = 0, snake = [(0, 0)],
     snake_length = 1, ended = False, apple_row = 0, apple_col = 1, move_lock = False\<rparr>"

text \<open>
  States of one game on that board. \<open>ex_idle\<close>: after a tick taken before any direction
  was chosen. \<open>ex_right\<close>: after the first key, right. \<open>ex_grown\<close>: one tick later, the
  apple eaten. \<open>ex_three\<close>: after a turn down and a second apple. \<open>ex_full\<close>: after a
  turn left, the last free cell holding the apple. \<open>ex_filled\<close>: what the next tick
  leaves when it calls \<open>generate_apple\<close>, the snake on all four cells.
\<close>

definition ex_idle :: game where
  "ex_idle = \<lparr>row = 2, col = 2, board = [[''N'', ''A''], [''N'', ''N'']],
     snake_direction = (0, 0), snake_row = 0, snake_col = 0, snake = [(0, 0), (0, 0)],
     snake_length = 1, ended = False, apple_row = 0, apple_col = 1, move_lock = False\<rparr>"

definition ex_right :: game where
  "ex_right = \<lparr>row = 2, col = 2, board = [[''S1'', ''A''], [''N'', ''N'']],
     snake_direction = (1, 0), snake_row = 0, snake_col = 0, snake = [(0, 0)],
     snake_length = 1, ended = False, apple_row = 0, apple_col = 1, move_lock = False\<rparr>"

definition ex_grown :: game where
  "ex_grown = \<lparr>row = 2, col = 2, board = [[''S0'', ''S1''], [''N'', ''A'']],
     snake_direction = (1, 0), snake_row = 0, snake_col = 1, snake = [(0, 0), (0, 1)],
     snake_length = 2, ended = False, apple_row = 1, apple_col = 1, move_lock = False\<rparr>"

definition ex_three :: game where
  "ex_three = \<lparr>row = 2, col = 2, board = [[''S0'', ''S0''], [''A'', ''S1'']],
     snake_direction = (0, 1), snake_row = 1, snake_col = 1,
     snake = [(0, 0), (0, 1), (1, 1)], snake_length = 3, ended = False,
     apple_row = 1, apple_col = 0, move_lock = False\<rparr>"

definition ex_full :: game where
  "ex_full = \<lparr>row = 2, col = 2, board = [[''S0'', ''S0''], [''A'', ''S1'']],
     snake_direction = (- 1, 0), snake_row = 1, snake_col = 1,
     snake = [(0, 0), (0, 1), (1, 1)], snake_length = 3, ended = False,
     apple_row = 1, apple_col = 0, move_lock = True\<rparr>"

definition ex_filled :: game where
  "ex_filled = \<lparr>row = 2, col = 2, board = [[''S0'', ''S0''], [''S1'', ''S0'']],
     snake_direction = (- 1, 0), snake_row = 1, snake_col = 0,
     snake = [(0, 0), (0, 1), (1, 1), (1, 0)], snake_length = 4, ended = False,
     apple_row = 1, apple_col = 0, move_lock = False\<rparr>"

section \<open>Reading and writing the board\<close>

lemma getitem_in: "0 \<le> i \<Longrightarrow> i < int (length xs) \<Longrightarrow> getitem xs i = Inr (xs ! nat i)"
  by (simp add: getitem_def py_index_def)

lemma getitem_neg:
  "0 < i \<Longrightarrow> i \<le> int (length xs) \<Longrightarrow> getitem xs (- i) = Inr (xs ! (length xs - nat i))"
  by (simp add: getitem_def py_index_def Let_def nat_diff_distrib')

lemma setitem_in: "0 \<le> i \<Longrightarrow> i < int (length xs) \<Longrightarrow> setitem xs i v = Inr (xs[nat i := v])"
  by (simp add: setitem_def py_index_def)

lemma wf_board_line:
  "wf_board n m b \<Longrightarrow> 0 \<le> r \<Longrightarrow> r < n \<Longrightarrow> int (length (b ! nat r)) = m"
  by (auto simp: wf_board_def list_all_length)

lemma board_get_in:
  assumes "wf_board n m b" "in_grid n m p"
  shows "board_get b (fst p) (snd p) = Inr (tile b p)"
proof -
  from assms have r: "0 \<le> fst p" "fst p < int (length b)" and c: "0 \<le> snd p" "snd p < m"
    by (simp_all add: wf_board_def in_grid_def)
  from wf_board_line[OF assms(1) r(1)] assms have "int (length (b ! nat (fst p))) = m"
    by (simp add: in_grid_def)
  with c have "getitem (b ! nat (fst p)) (snd p) = Inr (b ! nat (fst p) ! nat (snd p))"
    by (simp add: getitem_in)
  with r show ?thesis by (simp add: board_get_def getitem_in tile_def)
qed

lemma board_set_in:
  assumes "wf_board n m b" "in_grid n m p"
  shows "board_set b (fst p) (snd p) v = Inr (put b p v)"
proof -
  from assms have r: "0 \<le> fst p" "fst p < int (length b)" and c: "0 \<le> snd p" "snd p < m"
    by (simp_all add: wf_board_def in_grid_def)
  from wf_board_line[OF assms(1) r(1)] assms have "int (length (b ! nat (fst p))) = m"
    by (simp add: in_grid_def)
  with c have "setitem (b ! nat (fst p)) (snd p) v = Inr ((b ! nat (fst p))[nat (snd p) := v])"
    by (simp add: setitem_in)
  with r show ?thesis by (simp add: board_set_def getitem_in setitem_in put_def)
qed

lemma wf_board_put:
  assumes "wf_board n m b"
  shows "wf_board n m (put b p v)"
proof -
  have "int (length (put b p v ! k)) = m" if k: "k < length b" for k
  proof (cases "k = nat (fst p)")
    case True
    with k have "put b p v ! k = (b ! k)[nat (snd p) := v]" by (simp add: put_def)
    with assms k show ?thesis by (simp add: wf_board_def list_all_length)
  next
    case False
    then have "put b p v ! k = b ! k" by (simp add: put_def)
    with assms k show ?thesis by (simp add: wf_board_def list_all_length)
  qed
  moreover have "length (put b p v) = length b" by (simp add: put_def)
  ultimately show ?thesis using assms by (simp add: wf_board_def list_all_length)
qed

lemma tile_put:
  assumes "wf_board n m b" "in_grid n m p" "in_grid n m q"
  shows "tile (put b p v) q = (if q = p then v else tile b q)"
proof -
  from assms have r: "nat (fst p) < length b" "nat (fst q) < length b"
    by (auto simp: wf_board_def in_grid_def)
  from assms(2) have "0 \<le> fst p" "fst p < n" by (simp_all add: in_grid_def)
  from wf_board_line[OF assms(1) this] have "int (length (b ! nat (fst p))) = m" .
  with assms(2) have c: "nat (snd p) < length (b ! nat (fst p))"
    by (simp add: in_grid_def nat_less_iff)
  from assms(2,3) have eq: "q = p \<longleftrightarrow> nat (fst q) = nat (fst p) \<and> nat (snd q) = nat (snd p)"
    by (auto simp: in_grid_def prod_eq_iff)
  show ?thesis
    using r c eq by (auto simp: tile_def put_def nth_list_update)
qed

lemma cells_of_Nil: "cells_of sn [] = {}"
  by (simp add: cells_of_def)

lemma cells_of_Cons: "getitem sn i = Inr p \<Longrightarrow> cells_of sn (i # idx) = insert p (cells_of sn idx)"
  by (auto simp: cells_of_def)

lemma paint_in:
  assumes "wf_board n m b"
    and "\<forall>i\<in>set idx. \<exists>p. getitem sn i = Inr p \<and> in_grid n m p"
  shows "\<exists>b'. paint b sn v idx = Inr b' \<and> wf_board n m b' \<and>
           (\<forall>q. in_grid n m q \<longrightarrow> tile b' q = (if q \<in> cells_of sn idx then v else tile b q))"
  using assms
proof (induction idx arbitrary: b)
  case Nil
  then show ?case by (simp add: cells_of_Nil)
next
  case (Cons i idx)
  from Cons.prems(2) obtain p where p: "getitem sn i = Inr p" "in_grid n m p" by auto
  have w: "wf_board n m (put b p v)" using Cons.prems(1) by (rule wf_board_put)
  from Cons.prems(2) have rest: "\<forall>i\<in>set idx. \<exists>p. getitem sn i = Inr p \<and> in_grid n m p" by simp
  from Cons.IH[OF w rest] obtain b' where b':
    "paint (put b p v) sn v idx = Inr b'" "wf_board n m b'"
    "\<forall>q. in_grid n m q \<longrightarrow> tile b' q = (if q \<in> cells_of sn idx then v else tile (put b p v) q)"
    by blast
  have step: "paint b sn v (i # idx) = paint (put b p v) sn v idx"
    using p board_set_in[OF Cons.prems(1) p(2), of v] by (cases p) (simp add: )
  have "\<forall>q. in_grid n m q \<longrightarrow> tile b' q = (if q \<in> cells_of sn (i # idx) then v else tile b q)"
  proof (intro allI impI)
    fix q assume q: "in_grid n m q"
    from b'(3) q have "tile b' q = (if q \<in> cells_of sn idx then v else tile (put b p v) q)"
      by blast
    also have "tile (put b p v) q = (if q = p then v else tile b q)"
      using tile_put[OF Cons.prems(1) p(2) q] .
    finally show "tile b' q = (if q \<in> cells_of sn (i # idx) then v else tile b q)"
      by (simp add: cells_of_Cons[OF p(1)])
  qed
  with step b'(1,2) show ?case by simp
qed


lemma cells_neg:
  assumes "1 \<le> k" "k \<le> int (length xs)"
  shows "cells_of xs (map uminus [2..k]) = set (butlast (drop (length xs - nat k) xs))"
proof -
  let ?d = "length xs - nat k"
  have len: "length (drop ?d xs) = nat k" using assms by simp
  have "(!) (drop ?d xs) ` {0..<nat k - 1} = set (take (nat k - 1) (drop ?d xs))"
    using len by (intro nth_image) linarith
  moreover have "butlast (drop ?d xs) = take (nat k - 1) (drop ?d xs)"
    by (simp only: butlast_conv_take len)
  ultimately have "set (butlast (drop ?d xs)) = (!) (drop ?d xs) ` {0..<nat k - 1}"
    by simp
  also have "\<dots> = {xs ! (?d + j) | j. j < nat k - 1}"
  proof -
    have "drop ?d xs ! j = xs ! (?d + j)" if "j < nat k - 1" for j
      using that assms by (simp add: nth_drop)
    then show ?thesis by (auto simp: image_def) 
  qed
  also have "\<dots> = cells_of xs (map uminus [2..k])"
  proof (intro set_eqI iffI)
    fix p assume "p \<in> {xs ! (?d + j) | j. j < nat k - 1}"
    then obtain j where j: "j < nat k - 1" "p = xs ! (?d + j)" by blast
    let ?i = "k - int j"
    from j assms have i: "2 \<le> ?i" "?i \<le> k" "0 < ?i" "?i \<le> int (length xs)" by linarith+
    have "length xs - nat ?i = ?d + j" using j assms by linarith
    with getitem_neg[OF i(3,4)] j have "getitem xs (- ?i) = Inr p" by simp
    moreover from i have "- ?i \<in> set (map uminus [2..k])" by (simp add: image_iff)
    ultimately show "p \<in> cells_of xs (map uminus [2..k])" unfolding cells_of_def by blast
  next
    fix p assume "p \<in> cells_of xs (map uminus [2..k])"
    then obtain i' where i': "- k \<le> i'" "i' \<le> - 2" "getitem xs i' = Inr p"
      by (auto simp: cells_of_def)
    define i where "i = - i'"
    from i' have i: "2 \<le> i" "i \<le> k" "getitem xs (- i) = Inr p"
      by (simp_all add: i_def)
    from i assms have "0 < i" "i \<le> int (length xs)" by linarith+
    from getitem_neg[OF this] i have p: "p = xs ! (length xs - nat i)" by simp
    let ?j = "nat k - nat i"
    from i assms have "?j < nat k - 1" "length xs - nat i = ?d + ?j" by linarith+
    with p have "?j < nat k - 1 \<and> p = xs ! (?d + ?j)" by simp
    then have "\<exists>j. p = xs ! (?d + j) \<and> j < nat k - 1" by blast
    then show "p \<in> {xs ! (?d + j) | j. j < nat k - 1}" by simp
  qed
  finally show ?thesis by simp
qed

lemma cells_pos:
  assumes "- 1 \<le> j" "j < int (length xs)"
  shows "cells_of xs (rev [0..j]) = set (take (nat (j + 1)) xs)"
proof -
  have "set (take (nat (j + 1)) xs) = (!) xs ` {0..<nat (j + 1)}"
    using assms by (simp add: nth_image)
  also have "\<dots> = cells_of xs (rev [0..j])"
  proof (intro set_eqI iffI)
    fix p assume "p \<in> (!) xs ` {0..<nat (j + 1)}"
    then obtain k where k: "k < nat (j + 1)" "p = xs ! k" by auto
    from k assms have i: "0 \<le> int k" "int k \<le> j" "int k < int (length xs)" by linarith+
    from getitem_in[OF i(1,3)] k have "getitem xs (int k) = Inr p" by simp
    moreover from i have "int k \<in> set (rev [0..j])" by simp
    ultimately show "p \<in> cells_of xs (rev [0..j])" unfolding cells_of_def by blast
  next
    fix p assume "p \<in> cells_of xs (rev [0..j])"
    then obtain i where i: "0 \<le> i" "i \<le> j" "getitem xs i = Inr p"
      by (auto simp: cells_of_def)
    from i assms have "i < int (length xs)" by linarith
    from getitem_in[OF i(1) this] i have "p = xs ! nat i" by simp
    moreover from i have "nat i < nat (j + 1)" by linarith
    ultimately show "p \<in> (!) xs ` {0..<nat (j + 1)}" by auto
  qed
  finally show ?thesis by simp
qed

lemma trim_live:
  assumes "1 \<le> snake_length s" "snake_length s \<le> int (length (snake s))"
    "int (length (snake s)) \<le> snake_length s + 1"
  shows "(if int (length (snake s @ [new])) > snake_length s + 1
          then tl (snake s @ [new]) else snake s @ [new]) = live s @ [new]"
proof (cases "int (length (snake s)) = snake_length s")
  case True
  then have "length (snake s) - nat (snake_length s) = 0" by simp
  then have "live s = snake s" by (simp add: live_def)
  with True show ?thesis by simp
next
  case False
  with assms have e: "int (length (snake s)) = snake_length s + 1" by simp
  with assms have "length (snake s) - nat (snake_length s) = 1" by linarith
  then have "live s = tl (snake s)" by (simp add: live_def drop_Suc)
  moreover from e assms have "snake s \<noteq> []" by auto
  ultimately show ?thesis using e by simp
qed

lemma length_live:
  assumes "1 \<le> snake_length s" "snake_length s \<le> int (length (snake s))"
  shows "int (length (live s)) = snake_length s"
  using assms by (simp add: live_def)


section \<open>One tick that moves the snake\<close>

lemma paint_indices_neg:
  assumes "\<forall>p\<in>set xs. in_grid n m p" "k \<le> int (length xs)"
  shows "\<forall>i\<in>set (map uminus [2..k]). \<exists>p. getitem xs i = Inr p \<and> in_grid n m p"
proof
  fix i assume "i \<in> set (map uminus [2..k])"
  then have i: "- k \<le> i" "i \<le> - 2" by auto
  define j where "j = - i"
  from i assms(2) have j: "0 < j" "j \<le> int (length xs)" by (simp_all add: j_def)
  from getitem_neg[OF j] have g: "getitem xs i = Inr (xs ! (length xs - nat j))"
    by (simp add: j_def)
  from j have "length xs - nat j < length xs" by linarith
  then have "xs ! (length xs - nat j) \<in> set xs" by (rule nth_mem)
  with assms(1) g show "\<exists>p. getitem xs i = Inr p \<and> in_grid n m p" by blast
qed

lemma paint_indices_pos:
  assumes "\<forall>p\<in>set xs. in_grid n m p" "j < int (length xs)"
  shows "\<forall>i\<in>set (rev [0..j]). \<exists>p. getitem xs i = Inr p \<and> in_grid n m p"
proof
  fix i assume "i \<in> set (rev [0..j])"
  then have i: "0 \<le> i" "i \<le> j" by auto
  with assms(2) have l: "i < int (length xs)" by simp
  from getitem_in[OF i(1) l] have g: "getitem xs i = Inr (xs ! nat i)" .
  from i l have "nat i < length xs" by linarith
  then have "xs ! nat i \<in> set xs" by (rule nth_mem)
  with assms(1) g show "\<exists>p. getitem xs i = Inr p \<and> in_grid n m p" by blast
qed

lemma next_step_moved:
  assumes wf: "wf_board (row s) (col s) (board s)"
    and l1: "1 \<le> snake_length s" and l2: "snake_length s \<le> int (length (snake s))"
    and l3: "int (length (snake s)) \<le> snake_length s + 1"
    and ing: "\<forall>p\<in>set (snake s). in_grid (row s) (col s) p"
    and hg: "in_grid (row s) (col s) (snake_row s, snake_col s)"
    and ng: "in_grid (row s) (col s) (nr, nc)"
    and nr: "nr = snake_row s + snd (snake_direction s)"
    and nc: "nc = snake_col s + fst (snake_direction s)"
    and nocrash: "tile (board s) (nr, nc) \<noteq> ''S0''"
    and ate: "ate = ((nr, nc) \<noteq> (snake_row s, snake_col s) \<and> tile (board s) (nr, nc) = ''A'')"
    and len': "len' = (if ate then snake_length s + 1 else snake_length s)"
    and sn': "sn' = live s @ [(nr, nc)]"
  shows "\<exists>b'. next_step s = Inr (Moved ate (s\<lparr>move_lock := False, board := b', snake_row := nr,
                  snake_col := nc, snake := sn', snake_length := len'\<rparr>)) \<and>
           wf_board (row s) (col s) b' \<and>
           (\<forall>q. in_grid (row s) (col s) q \<longrightarrow> tile b' q =
              (if q \<in> set (take (length sn' - nat len') sn') then ''N''
               else if q \<in> set (butlast (drop (length sn' - nat len') sn')) then ''S0''
               else if q = (nr, nc) then ''S1''
               else if q = (snake_row s, snake_col s) then ''N'' else tile (board s) q))"
proof -
  let ?n = "row s" and ?m = "col s"
  define b1 where "b1 = put (board s) (snake_row s, snake_col s) ''N''"
  define b2 where "b2 = put b1 (nr, nc) ''S1''"
  have w1: "wf_board ?n ?m b1" unfolding b1_def using wf by (rule wf_board_put)
  have w2: "wf_board ?n ?m b2" unfolding b2_def using w1 by (rule wf_board_put)
  have bg0: "board_get (board s) nr nc = Inr (tile (board s) (nr, nc))"
    using board_get_in[OF wf ng] by simp
  have bs1: "board_set (board s) (snake_row s) (snake_col s) ''N'' = Inr b1"
    using board_set_in[OF wf hg] by (simp add: b1_def)
  have bg1: "board_get b1 nr nc = Inr (tile b1 (nr, nc))"
    using board_get_in[OF w1 ng] by simp
  have t1: "tile b1 q = (if q = (snake_row s, snake_col s) then ''N'' else tile (board s) q)"
    if "in_grid ?n ?m q" for q
    unfolding b1_def using tile_put[OF wf hg that] .
  have a1: "(tile b1 (nr, nc) = ''A'') = ate"
    using t1[OF ng] by (simp add: ate)
  have bs2: "board_set b1 nr nc ''S1'' = Inr b2"
    using board_set_in[OF w1 ng] by (simp add: b2_def)
  have t2: "tile b2 q = (if q = (nr, nc) then ''S1''
                         else if q = (snake_row s, snake_col s) then ''N'' else tile (board s) q)"
    if "in_grid ?n ?m q" for q
    unfolding b2_def using tile_put[OF w1 ng that] t1[OF that] by simp
  have ll: "int (length (live s)) = snake_length s" using l1 l2 by (rule length_live)
  have lsn: "int (length sn') = snake_length s + 1" using ll by (simp add: sn')
  have lenb: "1 \<le> len'" "len' \<le> int (length sn')" using l1 lsn by (simp_all add: len')
  have "set (live s) \<subseteq> set (snake s)" unfolding live_def by (rule set_drop_subset)
  with ing ng have ing': "\<forall>p\<in>set sn'. in_grid ?n ?m p" by (auto simp: sn')
  have trim: "(if snake_length s < int (length (snake s))
          then tl (snake s @ [(nr, nc)]) else snake s @ [(nr, nc)]) = sn'"
    using trim_live[OF l1 l2 l3, of "(nr, nc)"] by (simp add: sn')
  from paint_in[OF w2 paint_indices_neg[OF ing' lenb(2)], of "''S0''"]
  obtain b3 where b3: "paint b2 sn' ''S0'' (map uminus [2..len']) = Inr b3" "wf_board ?n ?m b3"
    "\<forall>q. in_grid ?n ?m q \<longrightarrow> tile b3 q =
        (if q \<in> cells_of sn' (map uminus [2..len']) then ''S0'' else tile b2 q)"
    by blast
  define j where "j = int (length sn') - len' - 1"
  have jb: "- 1 \<le> j" "j < int (length sn')" using lenb by (simp_all add: j_def)
  from paint_in[OF b3(2) paint_indices_pos[OF ing' jb(2)], of "''N''"]
  obtain b4 where b4: "paint b3 sn' ''N'' (rev [0..j]) = Inr b4" "wf_board ?n ?m b4"
    "\<forall>q. in_grid ?n ?m q \<longrightarrow> tile b4 q =
        (if q \<in> cells_of sn' (rev [0..j]) then ''N'' else tile b3 q)"
    by blast
  have c3: "cells_of sn' (map uminus [2..len']) = set (butlast (drop (length sn' - nat len') sn'))"
    using cells_neg[OF lenb] .
  have "nat (j + 1) = length sn' - nat len'" using lenb unfolding j_def by linarith
  with cells_pos[OF jb] have c4: "cells_of sn' (rev [0..j]) = set (take (length sn' - nat len') sn')"
    by simp
  have inb: "0 \<le> nr" "nr < row s" "0 \<le> nc" "nc < col s" using ng by (simp_all add: in_grid_def)
  have step: "next_step s = Inr (Moved ate (s\<lparr>move_lock := False, board := b4, snake_row := nr,
                  snake_col := nc, snake := sn', snake_length := len'\<rparr>))"
    unfolding next_step_def Let_def
    using inb nocrash
    by (simp add: nr[symmetric] nc[symmetric] bg0 bs1 bg1 a1 bs2 trim len'[symmetric]
        b3(1) j_def[symmetric] b4(1) cong: if_cong)
  have "tile b4 q =
              (if q \<in> set (take (length sn' - nat len') sn') then ''N''
               else if q \<in> set (butlast (drop (length sn' - nat len') sn')) then ''S0''
               else if q = (nr, nc) then ''S1''
               else if q = (snake_row s, snake_col s) then ''N'' else tile (board s) q)"
    if q: "in_grid ?n ?m q" for q
  proof -
    from b4(3) q have "tile b4 q = (if q \<in> cells_of sn' (rev [0..j]) then ''N'' else tile b3 q)"
      by blast
    moreover from b3(3) q
    have "tile b3 q = (if q \<in> cells_of sn' (map uminus [2..len']) then ''S0'' else tile b2 q)"
      by blast
    ultimately show ?thesis by (simp only: c3 c4 t2[OF q])
  qed
  with step b4(2) show ?thesis by blast
qed


section \<open>The invariant of the game\<close>

lemma game_invD:
  assumes "game_inv s"
  shows "2 \<le> row s" "2 \<le> col s" "wf_board (row s) (col s) (board s)"
    "1 \<le> snake_length s" "snake_length s \<le> int (length (snake s))"
    "int (length (snake s)) \<le> snake_length s + 1"
    "\<forall>p\<in>set (snake s). in_grid (row s) (col s) p"
    "last (snake s) = (snake_row s, snake_col s)"
    "distinct (live s)"
    "\<forall>q. in_grid (row s) (col s) q \<longrightarrow>
           (tile (board s) q = ''S0'') = (q \<in> set (butlast (live s)))"
    "\<forall>q. in_grid (row s) (col s) q \<longrightarrow> tile (board s) q = ''S1'' \<longrightarrow>
           q = (snake_row s, snake_col s)"
    "tile (board s) (snake_row s, snake_col s) = ''S1'' \<or>
       tile (board s) (snake_row s, snake_col s) = ''N''"
    "snake_direction s = (0, 0) \<longrightarrow> snake_length s = 1"
    "\<not> ended s"
  using assms unfolding game_inv_def by blast+

lemma live_facts:
  assumes "game_inv s"
  shows "live s \<noteq> []" "last (live s) = (snake_row s, snake_col s)"
    "int (length (live s)) = snake_length s" "set (live s) \<subseteq> set (snake s)"
    "in_grid (row s) (col s) (snake_row s, snake_col s)"
proof -
  note d = game_invD[OF assms]
  show l: "int (length (live s)) = snake_length s" using d(4,5) by (rule length_live)
  with d(4) show ne: "live s \<noteq> []" by auto
  from d(4,5) have sne: "snake s \<noteq> []" by auto
  from ne show "last (live s) = (snake_row s, snake_col s)"
    unfolding live_def using d(8) by (simp add: last_drop)
  show "set (live s) \<subseteq> set (snake s)" unfolding live_def by (rule set_drop_subset)
  from sne have "last (snake s) \<in> set (snake s)" by simp
  with d(7,8) show "in_grid (row s) (col s) (snake_row s, snake_col s)" by auto
qed


lemma game_invI:
  assumes "2 \<le> row s" "2 \<le> col s" "wf_board (row s) (col s) (board s)"
    "1 \<le> snake_length s" "snake_length s \<le> int (length (snake s))"
    "int (length (snake s)) \<le> snake_length s + 1"
    "\<forall>p\<in>set (snake s). in_grid (row s) (col s) p"
    "last (snake s) = (snake_row s, snake_col s)"
    "distinct (live s)"
    "\<forall>q. in_grid (row s) (col s) q \<longrightarrow>
           (tile (board s) q = ''S0'') = (q \<in> set (butlast (live s)))"
    "\<forall>q. in_grid (row s) (col s) q \<longrightarrow> tile (board s) q = ''S1'' \<longrightarrow>
           q = (snake_row s, snake_col s)"
    "tile (board s) (snake_row s, snake_col s) = ''S1'' \<or>
       tile (board s) (snake_row s, snake_col s) = ''N''"
    "snake_direction s = (0, 0) \<longrightarrow> snake_length s = 1"
    "\<not> ended s"
  shows "game_inv s"
  unfolding game_inv_def using assms by blast

lemma game_inv_moved:
  assumes inv: "game_inv s"
    and new: "new = (snake_row s + snd (snake_direction s), snake_col s + fst (snake_direction s))"
    and ng: "in_grid (row s) (col s) new"
    and nocrash: "tile (board s) new \<noteq> ''S0''"
    and ate: "ate = (new \<noteq> (snake_row s, snake_col s) \<and> tile (board s) new = ''A'')"
  shows "\<exists>s'. next_step s = Inr (Moved ate s') \<and> game_inv s' \<and>
           snake s' = live s @ [new] \<and> (snake_row s', snake_col s') = new \<and>
           snake_length s' = (if ate then snake_length s + 1 else snake_length s) \<and>
           row s' = row s \<and> col s' = col s \<and> snake_direction s' = snake_direction s \<and>
           (new \<noteq> (snake_row s, snake_col s) \<longrightarrow>
              tile (board s') new = ''S1'' \<and> distinct (snake s'))"
proof -
  note d = game_invD[OF inv] and lf = live_facts[OF inv]
  define h where "h = (snake_row s, snake_col s)"
  define L where "L = live s"
  define len' where "len' = (if ate then snake_length s + 1 else snake_length s)"
  define sn' where "sn' = L @ [new]"
  obtain nr nc where nrc: "new = (nr, nc)" by (cases new)
  have Lne: "L \<noteq> []" and lastL: "last L = h" and lenL: "int (length L) = snake_length s"
    and dL: "distinct L"
    using lf d(9) by (simp_all add: L_def h_def)
  have setL1: "set L = insert h (set (butlast L))"
    using append_butlast_last_id[OF Lne] lastL by (metis list.simps(15) rotate1.simps(2) set_rotate1)
  have setL2: "set L = insert (hd L) (set (tl L))"
    using Lne by (cases L) simp_all
  have hdtl: "hd L \<notin> set (tl L)" using dL Lne by (cases L) simp_all
  have nb: "new \<notin> set (butlast L)" using d(10) ng nocrash unfolding L_def by blast
  have zero: "L = [h]" if "new = h"
  proof -
    from that new have "snake_direction s = (0, 0)" by (simp add: h_def prod_eq_iff)
    with d(13) lenL have "length L = 1" by simp
    with lastL show ?thesis by (cases L) simp_all
  qed
  have ntl: "new \<notin> set (tl L)"
  proof (cases "new = h")
    case True then show ?thesis using zero by simp
  next
    case False with nb setL1 setL2 show ?thesis by auto
  qed
  have hg: "in_grid (row s) (col s) (snake_row s, snake_col s)" using lf(5) .
  from next_step_moved[OF d(3) d(4) d(5) d(6) d(7) hg ng[unfolded nrc] _ _ nocrash[unfolded nrc]
      ate[unfolded nrc] len'_def sn'_def[unfolded L_def nrc]] new nrc
  obtain b' where step: "next_step s = Inr (Moved ate (s\<lparr>move_lock := False, board := b',
        snake_row := nr, snake_col := nc, snake := sn', snake_length := len'\<rparr>))"
    and wb': "wf_board (row s) (col s) b'"
    and tiles: "\<forall>q. in_grid (row s) (col s) q \<longrightarrow> tile b' q =
              (if q \<in> set (take (length sn' - nat len') sn') then ''N''
               else if q \<in> set (butlast (drop (length sn' - nat len') sn')) then ''S0''
               else if q = new then ''S1''
               else if q = h then ''N'' else tile (board s) q)"
    unfolding h_def by auto
  have tq: "tile b' q =
              (if q \<in> set (take (length sn' - nat len') sn') then ''N''
               else if q \<in> set (butlast (drop (length sn' - nat len') sn')) then ''S0''
               else if q = new then ''S1''
               else if q = h then ''N'' else tile (board s) q)"
    if "in_grid (row s) (col s) q" for q
    using tiles that by blast
  define s' where "s' = s\<lparr>move_lock := False, board := b', snake_row := nr, snake_col := nc,
      snake := sn', snake_length := len'\<rparr>"
  have lsn: "int (length sn') = snake_length s + 1" using lenL by (simp add: sn'_def)
  have ingL: "\<forall>p\<in>set sn'. in_grid (row s) (col s) p"
    using d(7) lf(4) ng by (auto simp: sn'_def L_def)
  have olds0: "tile (board s) q \<noteq> ''S0''" if "in_grid (row s) (col s) q" "q \<notin> set L" for q
  proof -
    from that(2) setL1 have "q \<notin> set (butlast (live s))" by (auto simp: L_def)
    with d(10) that(1) show ?thesis by blast
  qed
  have olds1: "tile (board s) q \<noteq> ''S1''" if "in_grid (row s) (col s) q" "q \<noteq> h" for q
    using d(11) that unfolding h_def by blast
  have fields: "row s' = row s" "col s' = col s" "board s' = b'" "snake s' = sn'"
    "snake_length s' = len'" "snake_row s' = nr" "snake_col s' = nc"
    "snake_direction s' = snake_direction s" "ended s' = ended s"
    by (simp_all add: s'_def)
  have inv': "game_inv s' \<and> (new \<noteq> h \<longrightarrow> tile b' new = ''S1'' \<and> distinct sn')"
  proof (cases ate)
    case True
    with ate have nh: "new \<noteq> h" by (simp add: h_def)
    with nb setL1 have nL: "new \<notin> set L" by auto
    from True have len: "len' = snake_length s + 1" by (simp add: len'_def)
    with lsn d(4) have k: "length sn' - nat len' = 0" by simp
    have lv: "live s' = sn'" by (simp add: live_def fields k)
    have bl: "butlast sn' = L" by (simp add: sn'_def)
    have t: "tile b' q = (if q \<in> set L then ''S0'' else if q = new then ''S1''
               else if q = h then ''N'' else tile (board s) q)"
      if "in_grid (row s) (col s) q" for q
      using tq[OF that] by (simp add: k bl)
    have "game_inv s'"
    proof (rule game_invI)
      show "2 \<le> row s'" "2 \<le> col s'" using d(1,2) by (simp_all add: fields)
      show "wf_board (row s') (col s') (board s')" using wb' by (simp add: fields)
      show "1 \<le> snake_length s'" using d(4) len by (simp add: fields)
      show "snake_length s' \<le> int (length (snake s'))" using lsn len by (simp add: fields)
      show "int (length (snake s')) \<le> snake_length s' + 1" using lsn len by (simp add: fields)
      show "\<forall>p\<in>set (snake s'). in_grid (row s') (col s') p" using ingL by (simp add: fields)
      show "last (snake s') = (snake_row s', snake_col s')" by (simp add: fields sn'_def nrc)
      show "distinct (live s')" using dL nL by (simp add: lv sn'_def)
      show "\<forall>q. in_grid (row s') (col s') q \<longrightarrow>
           (tile (board s') q = ''S0'') = (q \<in> set (butlast (live s')))"
        using t olds0 by (auto simp: fields lv bl)
      show "\<forall>q. in_grid (row s') (col s') q \<longrightarrow> tile (board s') q = ''S1'' \<longrightarrow>
           q = (snake_row s', snake_col s')"
        using t olds1 by (auto simp: fields nrc split: if_splits)
      show "tile (board s') (snake_row s', snake_col s') = ''S1'' \<or>
            tile (board s') (snake_row s', snake_col s') = ''N''"
        using t[OF ng] nL by (simp add: fields nrc)
      show "snake_direction s' = (0, 0) \<longrightarrow> snake_length s' = 1"
        using nh new by (auto simp: fields h_def)
      show "\<not> ended s'" using d(14) by (simp add: fields)
    qed
    moreover have "tile b' new = ''S1''" using t[OF ng] nL by simp
    moreover have "distinct sn'" using dL nL by (simp add: sn'_def)
    ultimately show ?thesis by simp
  next
    case False
    then have len: "len' = snake_length s" by (simp add: len'_def)
    with lsn d(4) have k: "length sn' - nat len' = 1" by simp
    have tk: "take (Suc 0) sn' = [hd L]" using Lne by (cases L) (simp_all add: sn'_def)
    have dr: "drop (Suc 0) sn' = tl L @ [new]" using Lne by (cases L) (simp_all add: sn'_def)
    have lv: "live s' = tl L @ [new]" by (simp add: live_def fields k dr)
    have t: "tile b' q = (if q = hd L then ''N'' else if q \<in> set (tl L) then ''S0''
               else if q = new then ''S1'' else if q = h then ''N'' else tile (board s) q)"
      if "in_grid (row s) (col s) q" for q
      using tq[OF that] by (simp add: k tk dr)
    have "game_inv s'"
    proof (rule game_invI)
      show "2 \<le> row s'" "2 \<le> col s'" using d(1,2) by (simp_all add: fields)
      show "wf_board (row s') (col s') (board s')" using wb' by (simp add: fields)
      show "1 \<le> snake_length s'" using d(4) len by (simp add: fields)
      show "snake_length s' \<le> int (length (snake s'))" using lsn len by (simp add: fields)
      show "int (length (snake s')) \<le> snake_length s' + 1" using lsn len by (simp add: fields)
      show "\<forall>p\<in>set (snake s'). in_grid (row s') (col s') p" using ingL by (simp add: fields)
      show "last (snake s') = (snake_row s', snake_col s')" by (simp add: fields sn'_def nrc)
      show "distinct (live s')" using dL ntl by (simp add: lv distinct_tl)
      show "\<forall>q. in_grid (row s') (col s') q \<longrightarrow>
           (tile (board s') q = ''S0'') = (q \<in> set (butlast (live s')))"
        using t olds0 hdtl setL2 by (auto simp: fields lv)
      show "\<forall>q. in_grid (row s') (col s') q \<longrightarrow> tile (board s') q = ''S1'' \<longrightarrow>
           q = (snake_row s', snake_col s')"
        using t olds1 by (auto simp: fields nrc split: if_splits)
      show "tile (board s') (snake_row s', snake_col s') = ''S1'' \<or>
            tile (board s') (snake_row s', snake_col s') = ''N''"
        using t[OF ng] ntl by (simp add: fields nrc)
      show "snake_direction s' = (0, 0) \<longrightarrow> snake_length s' = 1"
        using d(13) len by (simp add: fields)
      show "\<not> ended s'" using d(14) by (simp add: fields)
    qed
    moreover have "tile b' new = ''S1'' \<and> distinct sn'" if nh: "new \<noteq> h"
    proof -
      from nh nb setL1 have nL: "new \<notin> set L" by auto
      with setL2 have "new \<noteq> hd L" by auto
      with t[OF ng] ntl have "tile b' new = ''S1''" by simp
      moreover have "distinct sn'" using dL nL by (simp add: sn'_def)
      ultimately show ?thesis by simp
    qed
    ultimately show ?thesis by simp
  qed
  have "next_step s = Inr (Moved ate s')" using step by (simp add: s'_def)
  moreover have "snake s' = live s @ [new]" by (simp add: fields sn'_def L_def)
  moreover have "(snake_row s', snake_col s') = new" by (simp add: fields nrc)
  moreover have "snake_length s' = (if ate then snake_length s + 1 else snake_length s)"
    by (simp add: fields len'_def)
  moreover have "new \<noteq> (snake_row s, snake_col s) \<longrightarrow>
              tile (board s') new = ''S1'' \<and> distinct (snake s')"
    using inv' by (simp add: fields h_def)
  ultimately show ?thesis using inv' fields(1,2,8) by blast
qed


section \<open>Generating the apple\<close>

declare generate_apple.simps [simp del]

lemma randint_mod: "1 \<le> n \<Longrightarrow> randint 0 (n - 1) e = Inr (int e mod n)"
  by (simp add: randint_def)

lemma mod_in_grid: "1 \<le> n \<Longrightarrow> 1 \<le> m \<Longrightarrow> in_grid n m (int a mod n, int b mod m)"
  by (simp add: in_grid_def)

lemma generate_apple_step:
  assumes wf: "wf_board (row s) (col s) (board s)" and n: "1 \<le> row s" and m: "1 \<le> col s"
    and p: "p = (int e1 mod row s, int e2 mod col s)"
  shows "generate_apple s (e1 # e2 # rng) =
     (if tile (board s) p = ''N''
      then Some (Inr (s\<lparr>board := put (board s) p ''A'', apple_row := fst p, apple_col := snd p\<rparr>))
      else generate_apple s rng)"
proof -
  have g: "in_grid (row s) (col s) p" unfolding p using n m by (rule mod_in_grid)
  from board_get_in[OF wf g] have bg:
    "board_get (board s) (int e1 mod row s) (int e2 mod col s) = Inr (tile (board s) p)"
    by (simp add: p)
  from board_set_in[OF wf g, of "''A''"] have bs:
    "board_set (board s) (int e1 mod row s) (int e2 mod col s) ''A'' = Inr (put (board s) p ''A'')"
    by (simp add: p)
  show ?thesis
    by (simp add: generate_apple.simps randint_mod[OF n] randint_mod[OF m] bg bs) (simp add: p)
qed

lemma generate_apple_result:
  assumes wf: "wf_board (row s) (col s) (board s)" and n: "1 \<le> row s" and m: "1 \<le> col s"
    and "generate_apple s rng = Some r"
  shows "\<exists>p. in_grid (row s) (col s) p \<and> tile (board s) p = ''N'' \<and>
           r = Inr (s\<lparr>board := put (board s) p ''A'', apple_row := fst p, apple_col := snd p\<rparr>)"
  using assms(4)
proof (induction rng rule: induct_list012)
  case 1
  then show ?case by (simp add: generate_apple.simps)
next
  case (2 x)
  then show ?case by (simp add: generate_apple.simps)
next
  case (3 e1 e2 rng)
  define p where "p = (int e1 mod row s, int e2 mod col s)"
  note st = generate_apple_step[OF wf n m p_def, of rng]
  have g: "in_grid (row s) (col s) p" unfolding p_def using n m by (rule mod_in_grid)
  show ?case
  proof (cases "tile (board s) p = ''N''")
    case True
    with st "3.prems" have "r = Inr (s\<lparr>board := put (board s) p ''A'', apple_row := fst p,
        apple_col := snd p\<rparr>)" by simp
    with g True show ?thesis by blast
  next
    case False
    with st "3.prems" have "generate_apple s rng = Some r" by simp
    then show ?thesis by (rule "3.IH"(1))
  qed
qed

lemma generate_apple_hits:
  assumes wf: "wf_board (row s) (col s) (board s)" and n: "1 \<le> row s" and m: "1 \<le> col s"
    and "even (length pre)"
    and hit: "tile (board s) (int a mod row s, int b mod col s) = ''N''"
  shows "\<exists>s'. generate_apple s (pre @ a # b # post) = Some (Inr s')"
  using assms(4)
proof (induction pre rule: induct_list012)
  case 1
  from generate_apple_step[OF wf n m refl, of a b post] hit
  show ?case by simp
next
  case (2 x)
  then show ?case by simp
next
  case (3 e1 e2 rng)
  define p where "p = (int e1 mod row s, int e2 mod col s)"
  note st = generate_apple_step[OF wf n m p_def, of "rng @ a # b # post"]
  show ?case
  proof (cases "tile (board s) p = ''N''")
    case True
    with st show ?thesis by simp
  next
    case False
    from "3.prems" have "even (length rng)" by simp
    then have "\<exists>s'. generate_apple s (rng @ a # b # post) = Some (Inr s')" by (rule "3.IH"(1))
    with st False show ?thesis by simp
  qed
qed

lemma game_inv_apple:
  assumes inv: "game_inv s" and hd: "tile (board s) (snake_row s, snake_col s) = ''S1''"
    and g: "in_grid (row s) (col s) p" and e: "tile (board s) p = ''N''"
    and s': "s' = s\<lparr>board := put (board s) p ''A'', apple_row := fst p, apple_col := snd p\<rparr>"
  shows "game_inv s'" "tile (board s') (snake_row s', snake_col s') = ''S1''"
    "tile (board s') p = ''A''"
proof -
  note d = game_invD[OF inv] and lf = live_facts[OF inv]
  have t: "tile (board s') q = (if q = p then ''A'' else tile (board s) q)"
    if "in_grid (row s) (col s) q" for q
    using tile_put[OF d(3) g that] by (simp add: s')
  have lv: "live s' = live s" by (simp add: live_def s')
  have ph: "p \<noteq> (snake_row s, snake_col s)" using hd e by auto
  have s0: "(tile (board s) q = ''S0'') = (q \<in> set (butlast (live s)))"
    if "in_grid (row s) (col s) q" for q using d(10) that by blast
  have s1: "q = (snake_row s, snake_col s)"
    if "in_grid (row s) (col s) q" "tile (board s) q = ''S1''" for q using d(11) that by blast
  show "game_inv s'"
  proof (rule game_invI)
    show "2 \<le> row s'" "2 \<le> col s'" using d(1,2) by (simp_all add: s')
    show "wf_board (row s') (col s') (board s')" using wf_board_put[OF d(3)] by (simp add: s')
    show "1 \<le> snake_length s'" "snake_length s' \<le> int (length (snake s'))"
      "int (length (snake s')) \<le> snake_length s' + 1"
      using d(4,5,6) by (simp_all add: s')
    show "\<forall>p\<in>set (snake s'). in_grid (row s') (col s') p" using d(7) by (simp add: s')
    show "last (snake s') = (snake_row s', snake_col s')" using d(8) by (simp add: s')
    show "distinct (live s')" using d(9) by (simp add: lv)
    show "\<forall>q. in_grid (row s') (col s') q \<longrightarrow>
           (tile (board s') q = ''S0'') = (q \<in> set (butlast (live s')))"
    proof (intro allI impI)
      fix q assume "in_grid (row s') (col s') q"
      then have q: "in_grid (row s) (col s) q" by (simp add: s')
      show "(tile (board s') q = ''S0'') = (q \<in> set (butlast (live s')))"
        using t[OF q] s0[OF q] s0[OF g] e by (auto simp: lv)
    qed
    show "\<forall>q. in_grid (row s') (col s') q \<longrightarrow> tile (board s') q = ''S1'' \<longrightarrow>
           q = (snake_row s', snake_col s')"
    proof (intro allI impI)
      fix q assume "in_grid (row s') (col s') q" and a: "tile (board s') q = ''S1''"
      then have q: "in_grid (row s) (col s) q" by (simp add: s')
      from t[OF q] a have "tile (board s) q = ''S1''" by (auto split: if_splits)
      from s1[OF q this] show "q = (snake_row s', snake_col s')" by (simp add: s')
    qed
    show "tile (board s') (snake_row s', snake_col s') = ''S1'' \<or>
          tile (board s') (snake_row s', snake_col s') = ''N''"
      using t[OF lf(5)] ph hd by (simp add: s')
    show "snake_direction s' = (0, 0) \<longrightarrow> snake_length s' = 1" using d(13) by (simp add: s')
    show "\<not> ended s'" using d(14) by (simp add: s')
  qed
  show "tile (board s') (snake_row s', snake_col s') = ''S1''"
    using t[OF lf(5)] ph hd by (simp add: s')
  show "tile (board s') p = ''A''" using t[OF g] by simp
qed


section \<open>Construction\<close>

lemma all_cells_set: "set (all_cells s) = {q. in_grid (row s) (col s) q}"
  by (auto simp: all_cells_def in_grid_def)

lemma all_cells_distinct: "distinct (all_cells s)"
  by (simp add: all_cells_def distinct_product)

lemma filter_single:
  "distinct xs \<Longrightarrow> p \<in> set xs \<Longrightarrow> (\<And>q. q \<in> set xs \<Longrightarrow> P q = (q = p)) \<Longrightarrow> filter P xs = [p]"
proof (induction xs)
  case Nil
  then show ?case by simp
next
  case (Cons x xs)
  show ?case
  proof (cases "x = p")
    case True
    with Cons.prems(1) have "p \<notin> set xs" by simp
    with Cons.prems(3) have "\<And>q. q \<in> set xs \<Longrightarrow> \<not> P q" by auto
    then have "filter P xs = []" by (simp add: filter_empty_conv)
    moreover from Cons.prems(3)[of x] True have "P x" by simp
    ultimately show ?thesis using True by simp
  next
    case False
    with Cons.prems have "filter P xs = [p]" by (intro Cons.IH) auto
    moreover from Cons.prems(3)[of x] False have "\<not> P x" by simp
    ultimately show ?thesis by simp
  qed
qed

lemma tagged_tile:
  assumes "wf_board (row s) (col s) (board s)"
  shows "tagged s t = filter (\<lambda>q. tile (board s) q = t) (all_cells s)"
  unfolding tagged_def
proof (rule filter_cong[OF refl])
  fix q assume "q \<in> set (all_cells s)"
  then have "in_grid (row s) (col s) q" by (simp add: all_cells_set)
  from board_get_in[OF assms this]
  show "(board_get (board s) (fst q) (snd q) = Inr t) = (tile (board s) q = t)" by simp
qed

lemma snake_cells_tile:
  assumes "wf_board (row s) (col s) (board s)"
  shows "snake_cells s =
     filter (\<lambda>q. tile (board s) q = ''S1'' \<or> tile (board s) q = ''S0'') (all_cells s)"
  unfolding snake_cells_def
proof (rule filter_cong[OF refl])
  fix q assume "q \<in> set (all_cells s)"
  then have "in_grid (row s) (col s) q" by (simp add: all_cells_set)
  from board_get_in[OF assms this]
  show "(board_get (board s) (fst q) (snd q) = Inr ''S1'' \<or>
         board_get (board s) (fst q) (snd q) = Inr ''S0'') =
        (tile (board s) q = ''S1'' \<or> tile (board s) q = ''S0'')" by simp
qed

lemma empty_board:
  assumes "0 \<le> r" "0 \<le> c"
  shows "wf_board r c (replicate (nat r) (replicate (nat c) ''N''))"
    and "in_grid r c q \<Longrightarrow> tile (replicate (nat r) (replicate (nat c) ''N'')) q = ''N''"
  using assms by (simp_all add: wf_board_def list_all_length tile_def in_grid_def nat_less_iff)

lemma before_apple_tile:
  assumes "2 \<le> r" "2 \<le> c" "in_grid r c q"
  shows "tile (board (before_apple r c e1 e2)) q =
           (if q = (int e1 mod r, int e2 mod c) then ''S1'' else ''N'')"
proof -
  from assms have g: "in_grid r c (int e1 mod r, int e2 mod c)" by (intro mod_in_grid) simp_all
  from assms have w: "wf_board r c (replicate (nat r) (replicate (nat c) ''N''))"
    by (intro empty_board) simp_all
  from assms have "tile (replicate (nat r) (replicate (nat c) ''N'')) q = ''N''"
    by (intro empty_board) simp_all
  with tile_put[OF w g assms(3), of "''S1''"] show ?thesis by (simp add: before_apple_def)
qed

lemma before_apple_inv:
  assumes "2 \<le> r" "2 \<le> c"
  shows "game_inv (before_apple r c e1 e2)"
proof -
  let ?s = "before_apple r c e1 e2"
  have f: "row ?s = r" "col ?s = c" "snake ?s = [(int e1 mod r, int e2 mod c)]"
    "snake_length ?s = 1" "snake_row ?s = int e1 mod r" "snake_col ?s = int e2 mod c"
    "snake_direction ?s = (0, 0)" "ended ?s = False"
    by (simp_all add: before_apple_def)
  from assms have g: "in_grid r c (int e1 mod r, int e2 mod c)" by (intro mod_in_grid) simp_all
  from assms have w: "wf_board r c (replicate (nat r) (replicate (nat c) ''N''))"
    by (intro empty_board) simp_all
  have lv: "live ?s = [(int e1 mod r, int e2 mod c)]" by (simp add: live_def f)
  note t = before_apple_tile[OF assms]
  show ?thesis
  proof (rule game_invI)
    show "2 \<le> row ?s" "2 \<le> col ?s" using assms by (simp_all add: f)
    show "wf_board (row ?s) (col ?s) (board ?s)"
      using wf_board_put[OF w] by (simp add: before_apple_def)
    show "1 \<le> snake_length ?s" "snake_length ?s \<le> int (length (snake ?s))"
      "int (length (snake ?s)) \<le> snake_length ?s + 1" by (simp_all add: f)
    show "\<forall>p\<in>set (snake ?s). in_grid (row ?s) (col ?s) p" using g by (simp add: f)
    show "last (snake ?s) = (snake_row ?s, snake_col ?s)" by (simp add: f)
    show "distinct (live ?s)" by (simp add: lv)
    show "\<forall>q. in_grid (row ?s) (col ?s) q \<longrightarrow>
           (tile (board ?s) q = ''S0'') = (q \<in> set (butlast (live ?s)))"
      using t by (simp add: f lv)
    show "\<forall>q. in_grid (row ?s) (col ?s) q \<longrightarrow> tile (board ?s) q = ''S1'' \<longrightarrow>
           q = (snake_row ?s, snake_col ?s)"
      using t by (simp add: f split: if_splits)
    show "tile (board ?s) (snake_row ?s, snake_col ?s) = ''S1'' \<or>
          tile (board ?s) (snake_row ?s, snake_col ?s) = ''N''"
      using t[OF g] by (simp add: f)
    show "snake_direction ?s = (0, 0) \<longrightarrow> snake_length ?s = 1" by (simp add: f)
    show "\<not> ended ?s" by (simp add: f)
  qed
qed

lemma init_unfold:
  assumes "2 \<le> r" "2 \<le> c"
  shows "SnakeBoard_init r c (e1 # e2 # rng) =
     (case generate_apple (before_apple r c e1 e2) rng of
        None \<Rightarrow> None
      | Some (Inl e) \<Rightarrow> Some (Inl e)
      | Some (Inr s) \<Rightarrow> Some (Inr (s\<lparr>move_lock := False\<rparr>)))"
proof -
  from assms have g: "in_grid r c (int e1 mod r, int e2 mod c)" by (intro mod_in_grid) simp_all
  from assms have w: "wf_board r c (replicate (nat r) (replicate (nat c) ''N''))"
    by (intro empty_board) simp_all
  from board_set_in[OF w g, of "''S1''"]
  have bs: "board_set (replicate (nat r) (replicate (nat c) ''N'')) (int e1 mod r) (int e2 mod c) ''S1''
      = Inr (put (replicate (nat r) (replicate (nat c) ''N'')) (int e1 mod r, int e2 mod c) ''S1'')"
    by simp
  from assms have r: "randint 0 (r - 1) e1 = Inr (int e1 mod r)"
    and c: "randint 0 (c - 1) e2 = Inr (int e2 mod c)"
    by (simp_all add: randint_mod)
  from assms show ?thesis
    by (simp add: SnakeBoard_init_def r c bs before_apple_def)
qed

lemma init_short:
  assumes "2 \<le> r" "2 \<le> c" "length rng < 2"
  shows "SnakeBoard_init r c rng = None"
proof (cases rng)
  case Nil
  with assms show ?thesis by (simp add: SnakeBoard_init_def)
next
  case (Cons a as)
  with assms have "as = []" by simp
  with Cons assms show ?thesis by (simp add: SnakeBoard_init_def)
qed

lemma init_result:
  assumes rc: "2 \<le> r" "2 \<le> c" and i: "SnakeBoard_init r c rng = Some x"
  shows "\<exists>e1 e2 p. in_grid r c p \<and> p \<noteq> (int e1 mod r, int e2 mod c) \<and>
           x = Inr ((before_apple r c e1 e2)\<lparr>
                  board := put (board (before_apple r c e1 e2)) p ''A'',
                  apple_row := fst p, apple_col := snd p, move_lock := False\<rparr>)"
proof -
  from init_short[OF rc] i have "\<not> length rng < 2" by auto
  then obtain e1 e2 rng' where rng: "rng = e1 # e2 # rng'"
    by (cases rng; cases "tl rng") auto
  let ?s = "before_apple r c e1 e2"
  note inv = before_apple_inv[OF rc, of e1 e2]
  have f: "row ?s = r" "col ?s = c" by (simp_all add: before_apple_def)
  from game_invD(3)[OF inv] have w: "wf_board (row ?s) (col ?s) (board ?s)" .
  from rc have d: "1 \<le> row ?s" "1 \<le> col ?s" by (simp_all add: f)
  from i init_unfold[OF rc, of e1 e2 rng'] rng
  obtain y where y: "generate_apple ?s rng' = Some y"
    by (cases "generate_apple ?s rng'") auto
  from generate_apple_result[OF w d y] obtain p where p: "in_grid r c p"
    "tile (board ?s) p = ''N''"
    "y = Inr (?s\<lparr>board := put (board ?s) p ''A'', apple_row := fst p, apple_col := snd p\<rparr>)"
    by (auto simp: f)
  from before_apple_tile[OF rc p(1), of e1 e2] p(2) have "p \<noteq> (int e1 mod r, int e2 mod c)"
    by (auto split: if_splits)
  moreover from i init_unfold[OF rc, of e1 e2 rng'] rng y p(3)
  have "x = Inr (?s\<lparr>board := put (board ?s) p ''A'', apple_row := fst p, apple_col := snd p,
      move_lock := False\<rparr>)" by simp
  ultimately show ?thesis using p(1) by blast
qed


lemma init_state_props:
  assumes rc: "2 \<le> r" "2 \<le> c" and i: "SnakeBoard_init r c rng = Some (Inr s)"
  shows "row s = r \<and> col s = c \<and>
         tagged s ''A'' = [(apple_row s, apple_col s)] \<and>
         tagged s ''S1'' = [(snake_row s, snake_col s)] \<and>
         0 \<le> snake_row s \<and> snake_row s < r \<and> 0 \<le> snake_col s \<and> snake_col s < c \<and>
         snake s = [(snake_row s, snake_col s)] \<and> snake_length s = 1 \<and>
         snake_direction s = (0, 0) \<and> \<not> move_lock s \<and> \<not> ended s"
proof -
  from init_result[OF rc i] obtain e1 e2 p where p: "in_grid r c p"
    "p \<noteq> (int e1 mod r, int e2 mod c)"
    and s0: "Inr s = (Inr ((before_apple r c e1 e2)\<lparr>
                  board := put (board (before_apple r c e1 e2)) p ''A'',
                  apple_row := fst p, apple_col := snd p, move_lock := False\<rparr>) :: error + game)"
    by blast
  from s0 have s: "s = (before_apple r c e1 e2)\<lparr>
                  board := put (board (before_apple r c e1 e2)) p ''A'',
                  apple_row := fst p, apple_col := snd p, move_lock := False\<rparr>"
    by simp
  let ?b = "before_apple r c e1 e2"
  define h where "h = (int e1 mod r, int e2 mod c)"
  have f: "row s = r" "col s = c" "snake s = [h]" "snake_length s = 1"
    "snake_row s = fst h" "snake_col s = snd h" "snake_direction s = (0, 0)"
    "move_lock s = False" "ended s = False" "apple_row s = fst p" "apple_col s = snd p"
    "board s = put (board ?b) p ''A''"
    by (simp_all add: s before_apple_def h_def)
  from rc have hg: "in_grid r c h" unfolding h_def by (intro mod_in_grid) simp_all
  have wb: "wf_board r c (board ?b)"
    using game_invD(3)[OF before_apple_inv[OF rc, of e1 e2]] by (simp add: before_apple_def)
  have w: "wf_board (row s) (col s) (board s)" using wf_board_put[OF wb] by (simp add: f)
  have t: "tile (board s) q = (if q = p then ''A'' else if q = h then ''S1'' else ''N'')"
    if q: "in_grid r c q" for q
    using tile_put[OF wb p(1) q, of "''A''"] before_apple_tile[OF rc q, of e1 e2]
    by (simp add: f h_def)
  have "tagged s ''A'' = [p]"
    unfolding tagged_tile[OF w]
  proof (rule filter_single[OF all_cells_distinct])
    show "p \<in> set (all_cells s)" using p(1) by (simp add: all_cells_set f)
    fix q assume "q \<in> set (all_cells s)"
    then have "in_grid r c q" by (simp add: all_cells_set f)
    from t[OF this] show "(tile (board s) q = ''A'') = (q = p)" by simp
  qed
  moreover have "tagged s ''S1'' = [h]"
    unfolding tagged_tile[OF w]
  proof (rule filter_single[OF all_cells_distinct])
    show "h \<in> set (all_cells s)" using hg by (simp add: all_cells_set f)
    fix q assume "q \<in> set (all_cells s)"
    then have "in_grid r c q" by (simp add: all_cells_set f)
    from t[OF this] p(2) show "(tile (board s) q = ''S1'') = (q = h)" by (auto simp: h_def)
  qed
  moreover from hg have "0 \<le> fst h \<and> fst h < r \<and> 0 \<le> snd h \<and> snd h < c"
    by (simp add: in_grid_def)
  ultimately show ?thesis by (simp add: f)
qed

lemma init_no_error:
  assumes rc: "2 \<le> r" "2 \<le> c"
  shows "SnakeBoard_init r c rng \<noteq> Some (Inl e)"
proof
  assume "SnakeBoard_init r c rng = Some (Inl e)"
  from init_result[OF rc this] show False by auto
qed

lemma init_returns:
  assumes rc: "2 \<le> r" "2 \<le> c" and ev: "even (length pre)"
    and ne: "(int a mod r, int b mod c) \<noteq> (int e1 mod r, int e2 mod c)"
  shows "\<exists>s. SnakeBoard_init r c (e1 # e2 # pre @ a # b # post) = Some (Inr s)"
proof -
  let ?s = "before_apple r c e1 e2"
  have f: "row ?s = r" "col ?s = c" by (simp_all add: before_apple_def)
  from game_invD(3)[OF before_apple_inv[OF rc, of e1 e2]]
  have w: "wf_board (row ?s) (col ?s) (board ?s)" .
  from rc have d: "1 \<le> row ?s" "1 \<le> col ?s" by (simp_all add: f)
  from rc have g: "in_grid r c (int a mod r, int b mod c)" by (intro mod_in_grid) simp_all
  from before_apple_tile[OF rc g, of e1 e2] ne
  have "tile (board ?s) (int a mod row ?s, int b mod col ?s) = ''N''" by (simp add: f)
  from generate_apple_hits[OF w d ev this, of post]
  obtain s' where "generate_apple ?s (pre @ a # b # post) = Some (Inr s')" by blast
  with init_unfold[OF rc, of e1 e2 "pre @ a # b # post"] show ?thesis by simp
qed

text \<open>
  C7. \<open>__init__\<close> raises \<open>InvalidGridSizeException\<close> exactly when \<open>rows < 2\<close> or
  \<open>cols < 2\<close>. With both at least 2 it raises nothing; the state it returns has exactly
  one cell tagged \<open>A\<close> (the recorded apple position), exactly one cell tagged \<open>S1\<close>, at
  the head position, which lies on the grid, a history of the head alone, length 1,
  direction \<open>(0, 0)\<close>, the move lock clear and the termination flag false; and it does
  return as soon as a pair of draws of \<open>generate_apple\<close> lands on a cell other than the
  head's (the rejection loop has no other way out).
\<close>

theorem init_spec:
  "((SnakeBoard_init r c rng = Some (Inl InvalidGridSizeException)) = (r < 2 \<or> c < 2)) \<and>
   (2 \<le> r \<and> 2 \<le> c \<longrightarrow>
      SnakeBoard_init r c rng \<noteq> Some (Inl e) \<and>
      (SnakeBoard_init r c rng = Some (Inr s) \<longrightarrow>
         row s = r \<and> col s = c \<and>
         tagged s ''A'' = [(apple_row s, apple_col s)] \<and>
         tagged s ''S1'' = [(snake_row s, snake_col s)] \<and>
         0 \<le> snake_row s \<and> snake_row s < r \<and> 0 \<le> snake_col s \<and> snake_col s < c \<and>
         snake s = [(snake_row s, snake_col s)] \<and> snake_length s = 1 \<and>
         snake_direction s = (0, 0) \<and> \<not> move_lock s \<and> \<not> ended s) \<and>
      (even (length pre) \<and> (int a mod r, int b mod c) \<noteq> (int e1 mod r, int e2 mod c) \<longrightarrow>
         (\<exists>s'. SnakeBoard_init r c (e1 # e2 # pre @ a # b # post) = Some (Inr s'))))"
proof -
  have c1: "(SnakeBoard_init r c rng = Some (Inl InvalidGridSizeException)) = (r < 2 \<or> c < 2)"
  proof (cases "r < 2 \<or> c < 2")
    case True
    then show ?thesis by (simp add: SnakeBoard_init_def)
  next
    case False
    then have "2 \<le> r" "2 \<le> c" by simp_all
    from init_no_error[OF this] False show ?thesis by simp
  qed
  have c2: "2 \<le> r \<and> 2 \<le> c \<longrightarrow> SnakeBoard_init r c rng \<noteq> Some (Inl e)"
    using init_no_error by blast
  have c3: "2 \<le> r \<and> 2 \<le> c \<longrightarrow> (SnakeBoard_init r c rng = Some (Inr s) \<longrightarrow>
         row s = r \<and> col s = c \<and>
         tagged s ''A'' = [(apple_row s, apple_col s)] \<and>
         tagged s ''S1'' = [(snake_row s, snake_col s)] \<and>
         0 \<le> snake_row s \<and> snake_row s < r \<and> 0 \<le> snake_col s \<and> snake_col s < c \<and>
         snake s = [(snake_row s, snake_col s)] \<and> snake_length s = 1 \<and>
         snake_direction s = (0, 0) \<and> \<not> move_lock s \<and> \<not> ended s)"
    using init_state_props by blast
  have c4: "2 \<le> r \<and> 2 \<le> c \<longrightarrow>
      (even (length pre) \<and> (int a mod r, int b mod c) \<noteq> (int e1 mod r, int e2 mod c) \<longrightarrow>
         (\<exists>s'. SnakeBoard_init r c (e1 # e2 # pre @ a # b # post) = Some (Inr s')))"
    using init_returns by blast
  from c1 c2 c3 c4 show ?thesis by blast
qed

lemma ex_init_eval: "SnakeBoard_init 2 2 [0, 0, 0, 0, 0, 1] = Some (Inr ex_init)"
  by (simp add: SnakeBoard_init_def generate_apple.simps randint_def board_get_def board_set_def
      getitem_def setitem_def py_index_def ex_init_def numeral_2_eq_2)

theorem init_spec_witness:
  "SnakeBoard_init 1 2 [0, 0, 0, 0, 0, 1] = Some (Inl InvalidGridSizeException) \<and>
   SnakeBoard_init 2 2 [0, 0, 0, 0, 0, 1] = Some (Inr ex_init) \<and>
   tagged ex_init ''A'' = [(0, 1)] \<and> tagged ex_init ''S1'' = [(0, 0)] \<and>
   snake_length ex_init = 1 \<and> snake_direction ex_init = (0, 0) \<and>
   \<not> move_lock ex_init \<and> \<not> ended ex_init"
proof -
  have a: "SnakeBoard_init 1 2 [0, 0, 0, 0, 0, 1] = Some (Inl InvalidGridSizeException)"
    using init_spec[of 1 2 "[0, 0, 0, 0, 0, 1]"] by simp
  have "(2::int) \<le> 2 \<and> (2::int) \<le> 2" by simp
  with init_spec[of 2 2 "[0, 0, 0, 0, 0, 1]" _ ex_init] ex_init_eval
  have "tagged ex_init ''A'' = [(apple_row ex_init, apple_col ex_init)] \<and>
         tagged ex_init ''S1'' = [(snake_row ex_init, snake_col ex_init)] \<and>
         snake_length ex_init = 1 \<and>
         snake_direction ex_init = (0, 0) \<and> \<not> move_lock ex_init \<and> \<not> ended ex_init"
    by blast
  moreover have "apple_row ex_init = 0" "apple_col ex_init = 1" "snake_row ex_init = 0"
    "snake_col ex_init = 0" by (simp_all add: ex_init_def)
  ultimately show ?thesis using a ex_init_eval by simp
qed


section \<open>Direction changes keep the invariant\<close>

lemma update_direction_form:
  assumes "d \<in> set KEY_DICT"
  shows "\<exists>x y. update_direction s d = s\<lparr>snake_direction := x, move_lock := y\<rparr> \<and>
           (x = snake_direction s \<or> x = d) \<and> (x = (0, 0) \<longrightarrow> snake_direction s = (0, 0) \<and> move_lock s)"
proof -
  from assms have dz: "d \<noteq> (0, 0)" by (auto simp: KEY_DICT_def)
  have id: "s = s\<lparr>snake_direction := snake_direction s, move_lock := move_lock s\<rparr>" by simp
  show ?thesis
  proof (cases "move_lock s")
    case True
    then have "update_direction s d = s" by (simp add: update_direction_def)
    with True show ?thesis by (metis id)
  next
    case False
    show ?thesis
    proof (cases "snake_direction s = (0, 0)")
      case True
      let ?s1 = "s\<lparr>snake_direction := d\<rparr>"
      have "update_direction s d = ?s1 \<or>
            update_direction s d = ?s1\<lparr>snake_direction := d, move_lock := True\<rparr>"
        using False True by (simp add: update_direction_def Let_def)
      then have "update_direction s d = s\<lparr>snake_direction := d, move_lock := move_lock s\<rparr> \<or>
            update_direction s d = s\<lparr>snake_direction := d, move_lock := True\<rparr>"
        by simp
      with dz show ?thesis by blast
    next
      case nz: False
      have "update_direction s d = s \<or>
            update_direction s d = s\<lparr>snake_direction := d, move_lock := True\<rparr>"
        using False nz by (simp add: update_direction_def Let_def)
      then show ?thesis
      proof
        assume "update_direction s d = s"
        with nz show ?thesis by (metis id)
      next
        assume "update_direction s d = s\<lparr>snake_direction := d, move_lock := True\<rparr>"
        with dz show ?thesis by blast
      qed
    qed
  qed
qed

lemma game_inv_turn:
  assumes inv: "game_inv s" and x: "x = (0, 0) \<longrightarrow> snake_direction s = (0, 0)"
  shows "game_inv (s\<lparr>snake_direction := x, move_lock := y\<rparr>)"
proof -
  note d = game_invD[OF inv]
  let ?t = "s\<lparr>snake_direction := x, move_lock := y\<rparr>"
  have lv: "live ?t = live s" by (simp add: live_def)
  show ?thesis
  proof (rule game_invI)
    show "2 \<le> row ?t" "2 \<le> col ?t" using d(1,2) by simp_all
    show "wf_board (row ?t) (col ?t) (board ?t)" using d(3) by simp
    show "1 \<le> snake_length ?t" "snake_length ?t \<le> int (length (snake ?t))"
      "int (length (snake ?t)) \<le> snake_length ?t + 1" using d(4,5,6) by simp_all
    show "\<forall>p\<in>set (snake ?t). in_grid (row ?t) (col ?t) p" using d(7) by simp
    show "last (snake ?t) = (snake_row ?t, snake_col ?t)" using d(8) by simp
    show "distinct (live ?t)" using d(9) by (simp add: lv)
    show "\<forall>q. in_grid (row ?t) (col ?t) q \<longrightarrow>
           (tile (board ?t) q = ''S0'') = (q \<in> set (butlast (live ?t)))"
      using d(10) by (simp add: lv)
    show "\<forall>q. in_grid (row ?t) (col ?t) q \<longrightarrow> tile (board ?t) q = ''S1'' \<longrightarrow>
           q = (snake_row ?t, snake_col ?t)" using d(11) by simp
    show "tile (board ?t) (snake_row ?t, snake_col ?t) = ''S1'' \<or>
          tile (board ?t) (snake_row ?t, snake_col ?t) = ''N''" using d(12) by simp
    show "snake_direction ?t = (0, 0) \<longrightarrow> snake_length ?t = 1" using d(13) x by simp
    show "\<not> ended ?t" using d(14) by simp
  qed
qed

lemma game_inv_update_direction:
  assumes "game_inv s" "d \<in> set KEY_DICT"
  shows "game_inv (update_direction s d)"
    and "head_tagged s \<Longrightarrow> head_tagged (update_direction s d)"
proof -
  from update_direction_form[OF assms(2), of s] obtain x y where
    u: "update_direction s d = s\<lparr>snake_direction := x, move_lock := y\<rparr>"
    and x: "x = (0, 0) \<longrightarrow> snake_direction s = (0, 0) \<and> move_lock s" by blast
  from x have "x = (0, 0) \<longrightarrow> snake_direction s = (0, 0)" by blast
  from game_inv_turn[OF assms(1) this] show "game_inv (update_direction s d)" by (simp add: u)
  show "head_tagged s \<Longrightarrow> head_tagged (update_direction s d)"
    by (simp add: u head_tagged_def)
qed

section \<open>Every reachable state satisfies the invariant\<close>

lemma next_step_crash:
  assumes "(\<not> (0 \<le> snake_row s + snd (snake_direction s) \<and>
        snake_row s + snd (snake_direction s) < row s) \<or>
    \<not> (0 \<le> snake_col s + fst (snake_direction s) \<and>
        snake_col s + fst (snake_direction s) < col s)) \<or>
   board_get (board s) (snake_row s + snd (snake_direction s))
     (snake_col s + fst (snake_direction s)) = Inr ''S0''"
  shows "next_step s = Inr (Crashed (s\<lparr>move_lock := False, ended := True\<rparr>))"
  using assms by (auto simp: next_step_def Let_def)

lemma next_of_step:
  "next_step s = Inr (Crashed t) \<Longrightarrow> SnakeBoard_next s rng = Some (Inr (PyBool True, t))"
  "next_step s = Inr (Moved False t) \<Longrightarrow> SnakeBoard_next s rng = Some (Inr (PyNone, t))"
  "next_step s = Inr (Moved True t) \<Longrightarrow> SnakeBoard_next s rng =
     (case generate_apple t rng of None \<Rightarrow> None | Some (Inl e) \<Rightarrow> Some (Inl e)
      | Some (Inr s'') \<Rightarrow> Some (Inr (PyNone, s'')))"
  by (simp_all add: SnakeBoard_next_def)

lemma game_inv_tick:
  assumes inv: "game_inv s" and n: "SnakeBoard_next s rng = Some (Inr (ret, s'))"
    and ne: "\<not> ended s'"
  shows "game_inv s'" and "snake_direction s \<noteq> (0, 0) \<Longrightarrow> head_tagged s'"
proof -
  note d = game_invD[OF inv] and lf = live_facts[OF inv]
  define new where "new = (snake_row s + snd (snake_direction s), snake_col s + fst (snake_direction s))"
  define ate where "ate = (new \<noteq> (snake_row s, snake_col s) \<and> tile (board s) new = ''A'')"
  have ng: "in_grid (row s) (col s) new"
  proof (rule ccontr)
    assume "\<not> in_grid (row s) (col s) new"
    then have "\<not> (0 \<le> snake_row s + snd (snake_direction s) \<and>
        snake_row s + snd (snake_direction s) < row s) \<or>
      \<not> (0 \<le> snake_col s + fst (snake_direction s) \<and>
        snake_col s + fst (snake_direction s) < col s)"
      by (auto simp: in_grid_def new_def)
    then have "next_step s = Inr (Crashed (s\<lparr>move_lock := False, ended := True\<rparr>))"
      by (intro next_step_crash) blast
    from next_of_step(1)[OF this, of rng] n have "s' = s\<lparr>move_lock := False, ended := True\<rparr>"
      by simp
    with ne show False by simp
  qed
  have bg: "board_get (board s) (snake_row s + snd (snake_direction s))
     (snake_col s + fst (snake_direction s)) = Inr (tile (board s) new)"
    using board_get_in[OF d(3) ng] by (simp add: new_def)
  have nc: "tile (board s) new \<noteq> ''S0''"
  proof
    assume "tile (board s) new = ''S0''"
    with bg have "next_step s = Inr (Crashed (s\<lparr>move_lock := False, ended := True\<rparr>))"
      by (intro next_step_crash) simp
    from next_of_step(1)[OF this, of rng] n have "s' = s\<lparr>move_lock := False, ended := True\<rparr>"
      by simp
    with ne show False by simp
  qed
  from game_inv_moved[OF inv new_def ng nc ate_def] obtain s1 where
    st: "next_step s = Inr (Moved ate s1)" and i1: "game_inv s1"
    and hd1: "(snake_row s1, snake_col s1) = new"
    and mv: "new \<noteq> (snake_row s, snake_col s) \<longrightarrow>
              tile (board s1) new = ''S1'' \<and> distinct (snake s1)"
    by blast
  have nz: "new \<noteq> (snake_row s, snake_col s)" if "snake_direction s \<noteq> (0, 0)"
    using that by (auto simp: new_def prod_eq_iff)
  have "game_inv s' \<and> (snake_direction s \<noteq> (0, 0) \<longrightarrow> head_tagged s')"
  proof (cases ate)
    case False
    with st next_of_step(2)[of s s1 rng] n have "s' = s1" by simp
    with i1 mv nz hd1 show ?thesis by (auto simp: head_tagged_def)
  next
    case True
    with ate_def have nh: "new \<noteq> (snake_row s, snake_col s)" by simp
    with mv hd1 have h1: "tile (board s1) (snake_row s1, snake_col s1) = ''S1''"
      and ds: "distinct (snake s1)" by simp_all
    from True st next_of_step(3)[of s s1 rng] n
    obtain y where y: "generate_apple s1 rng = Some y"
      by (cases "generate_apple s1 rng") auto
    note d1 = game_invD[OF i1]
    from d1(1,2) have "1 \<le> row s1" "1 \<le> col s1" by simp_all
    from generate_apple_result[OF d1(3) this y] obtain p where
      p: "in_grid (row s1) (col s1) p" "tile (board s1) p = ''N''"
      and yy: "y = Inr (s1\<lparr>board := put (board s1) p ''A'', apple_row := fst p, apple_col := snd p\<rparr>)"
      by blast
    from True st next_of_step(3)[of s s1 rng] n y yy
    have s': "s' = s1\<lparr>board := put (board s1) p ''A'', apple_row := fst p, apple_col := snd p\<rparr>"
      by simp
    from game_inv_apple[OF i1 h1 p s'] ds s' show ?thesis by (simp add: head_tagged_def)
  qed
  then show "game_inv s'" and "snake_direction s \<noteq> (0, 0) \<Longrightarrow> head_tagged s'" by simp_all
qed

lemma game_inv_init:
  assumes "SnakeBoard_init r c rng = Some (Inr s)"
  shows "game_inv s \<and> head_tagged s"
proof -
  have rc: "2 \<le> r" "2 \<le> c"
    using assms by (auto simp: SnakeBoard_init_def split: if_splits)
  from init_result[OF rc assms] obtain e1 e2 p where p: "in_grid r c p"
    "p \<noteq> (int e1 mod r, int e2 mod c)"
    and s0: "Inr s = (Inr ((before_apple r c e1 e2)\<lparr>
                  board := put (board (before_apple r c e1 e2)) p ''A'',
                  apple_row := fst p, apple_col := snd p, move_lock := False\<rparr>) :: error + game)"
    by blast
  let ?b = "before_apple r c e1 e2"
  define t where "t = ?b\<lparr>board := put (board ?b) p ''A'', apple_row := fst p, apple_col := snd p\<rparr>"
  from s0 have s: "s = t\<lparr>snake_direction := snake_direction t, move_lock := False\<rparr>"
    by (simp add: t_def)
  have f: "row ?b = r" "col ?b = c" "snake_row ?b = int e1 mod r" "snake_col ?b = int e2 mod c"
    "snake ?b = [(int e1 mod r, int e2 mod c)]"
    by (simp_all add: before_apple_def)
  from rc have hg: "in_grid r c (int e1 mod r, int e2 mod c)" by (intro mod_in_grid) simp_all
  from before_apple_tile[OF rc hg, of e1 e2]
  have h: "tile (board ?b) (snake_row ?b, snake_col ?b) = ''S1''" by (simp add: f)
  from before_apple_tile[OF rc p(1), of e1 e2] p(2) have e: "tile (board ?b) p = ''N''" by simp
  from p(1) have pg: "in_grid (row ?b) (col ?b) p" by (simp add: f)
  note a = game_inv_apple[OF before_apple_inv[OF rc, of e1 e2] h pg e t_def]
  from game_inv_turn[OF a(1), of "snake_direction t" False] have "game_inv s" by (simp add: s)
  moreover from a(2) have "head_tagged s" by (simp add: head_tagged_def s) (simp add: t_def f)
  ultimately show ?thesis by simp
qed

lemma reachable_inv: "reachable s \<Longrightarrow> game_inv s"
proof (induction rule: reachable.induct)
  case (reach_init r c rng s)
  then show ?case using game_inv_init by blast
next
  case (reach_turn s d)
  then show ?case using game_inv_update_direction(1) by blast
next
  case (reach_tick s rng ret s')
  then show ?case using game_inv_tick(1) by blast
qed

lemma reachable_moving_inv: "reachable_moving s \<Longrightarrow> game_inv s \<and> head_tagged s"
proof (induction rule: reachable_moving.induct)
  case (moving_init r c rng s)
  then show ?case using game_inv_init by blast
next
  case (moving_turn s d)
  then show ?case using game_inv_update_direction by blast
next
  case (moving_tick s rng ret s')
  then show ?case using game_inv_tick by blast
qed

section \<open>Direction changes and the move lock\<close>

lemma locked_noop: "move_lock s \<Longrightarrow> update_direction s d = s"
  by (simp add: update_direction_def)

lemma locked_fold: "move_lock s \<Longrightarrow> fold (\<lambda>d t. update_direction t d) ds s = s"
  by (induction ds) (simp_all add: locked_noop)

lemma next_step_lock:
  "next_step s = Inr (Crashed s') \<Longrightarrow> \<not> move_lock s' \<and> snake_direction s' = snake_direction s"
  "next_step s = Inr (Moved a s') \<Longrightarrow> \<not> move_lock s' \<and> snake_direction s' = snake_direction s"
  by (auto simp: next_step_def Let_def split: if_splits sum.splits)

lemma generate_apple_keeps:
  "generate_apple s rng = Some (Inr s') \<Longrightarrow>
     move_lock s' = move_lock s \<and> snake_direction s' = snake_direction s"
  by (induction s rng rule: generate_apple.induct)
    (auto simp: generate_apple.simps split: sum.splits if_splits)

lemma next_lock:
  assumes "SnakeBoard_next s rng = Some (Inr (ret, s'))"
  shows "\<not> move_lock s' \<and> snake_direction s' = snake_direction s"
proof (cases "next_step s")
  case (Inl e)
  with assms show ?thesis by (simp add: SnakeBoard_next_def)
next
  case (Inr st)
  show ?thesis
  proof (cases st)
    case (Crashed t)
    with Inr assms have "s' = t" by (simp add: SnakeBoard_next_def)
    with Inr Crashed next_step_lock(1) show ?thesis by blast
  next
    case (Moved a t)
    have t: "\<not> move_lock t \<and> snake_direction t = snake_direction s"
      using Inr Moved next_step_lock(2) by blast
    show ?thesis
    proof (cases a)
      case False
      with Inr Moved assms have "s' = t" by (simp add: SnakeBoard_next_def)
      with t show ?thesis by simp
    next
      case True
      with Inr Moved assms have "generate_apple t rng = Some (Inr s')"
        by (simp add: SnakeBoard_next_def split: option.splits sum.splits)
      from generate_apple_keeps[OF this] t show ?thesis by simp
    qed
  qed
qed

lemma ex_down_next:
  "SnakeBoard_next (ex_down\<lparr>move_lock := True\<rparr>) [] = Some (Inr (PyNone, ex_down_moved))"
  by (simp add: SnakeBoard_next_def next_step_def ex_down_def ex_down_moved_def Let_def
      board_get_def board_set_def getitem_def setitem_def py_index_def)

text \<open>
  C3, as amended. With the move lock clear and the current direction one of the four
  unit vectors, \<open>update_direction\<close> with a unit vector other than the exact reverse does
  this: a perpendicular turn is accepted (the direction is set and the lock is set);
  re-choosing the current direction changes nothing, so the lock is not set.
\<close>

theorem update_direction_non_reverse:
  "\<not> move_lock s \<Longrightarrow> snake_direction s \<in> set KEY_DICT \<Longrightarrow> d \<in> set KEY_DICT \<Longrightarrow>
   d \<noteq> (- fst (snake_direction s), - snd (snake_direction s)) \<Longrightarrow>
   update_direction s d =
     (if d = snake_direction s then s else s\<lparr>snake_direction := d, move_lock := True\<rparr>)"
proof -
  assume l: "\<not> move_lock s" and a: "snake_direction s \<in> set KEY_DICT"
    and b: "d \<in> set KEY_DICT"
    and r: "d \<noteq> (- fst (snake_direction s), - snd (snake_direction s))"
  obtain h v where d: "d = (h, v)" by (cases d)
  obtain x y where sd: "snake_direction s = (x, y)" by (cases "snake_direction s")
  from a sd have xy: "(x, y) = (0, - 1) \<or> (x, y) = (0, 1) \<or> (x, y) = (- 1, 0) \<or> (x, y) = (1, 0)"
    by (simp add: KEY_DICT_def)
  from b d have hv: "(h, v) = (0, - 1) \<or> (h, v) = (0, 1) \<or> (h, v) = (- 1, 0) \<or> (h, v) = (1, 0)"
    by (simp add: KEY_DICT_def)
  from r d sd have ne: "(h, v) \<noteq> (- x, - y)" by simp
  have nz: "snake_direction s \<noteq> (0, 0)" using xy sd by auto
  have "update_direction s d =
      (if \<not> (fst d * (- 1) = fst (snake_direction s) \<or> snd d * (- 1) = snd (snake_direction s))
       then s\<lparr>snake_direction := d, move_lock := True\<rparr> else s)"
    using l nz by (simp add: update_direction_def Let_def)
  then have u: "update_direction s d =
      (if \<not> (h * (- 1) = x \<or> v * (- 1) = y)
       then s\<lparr>snake_direction := d, move_lock := True\<rparr> else s)"
    by (simp add: d sd)
  show ?thesis
  proof (cases "d = snake_direction s")
    case True
    with d sd have "h = x" "v = y" by simp_all
    with xy have "h * (- 1) = x \<or> v * (- 1) = y" by auto
    with u have "update_direction s d = s" by auto
    with True show ?thesis by simp
  next
    case False
    with d sd have "(h, v) \<noteq> (x, y)" by simp
    with xy hv ne have "\<not> (h * (- 1) = x \<or> v * (- 1) = y)" by auto
    with u have "update_direction s d = s\<lparr>snake_direction := d, move_lock := True\<rparr>" by auto
    with False show ?thesis by simp
  qed
qed

theorem update_direction_non_reverse_witness:
  "\<not> move_lock ex_down \<and> snake_direction ex_down \<in> set KEY_DICT \<and> (1, 0) \<in> set KEY_DICT \<and>
   update_direction ex_down (1, 0) = ex_down\<lparr>snake_direction := (1, 0), move_lock := True\<rparr>"
proof -
  have a: "\<not> move_lock ex_down" and b: "snake_direction ex_down \<in> set KEY_DICT"
    and c: "(1, 0) \<in> set KEY_DICT"
    and d: "(1, 0) \<noteq> (- fst (snake_direction ex_down), - snd (snake_direction ex_down))"
    and e: "(1, 0) \<noteq> snake_direction ex_down"
    by (simp_all add: ex_down_def KEY_DICT_def)
  from update_direction_non_reverse[OF a b c d] a b c e show ?thesis by simp
qed

text \<open>
  C3, the claim as written fails: in \<open>ex_down\<close> (moving down, lock clear) the call that
  re-chooses "down" is not the reverse, yet it does not set the move lock.
\<close>

theorem update_direction_same_counterexample:
  "snake_direction ex_down = (0, 1) \<and> \<not> move_lock ex_down \<and> (0, 1) \<in> set KEY_DICT \<and>
   (0, 1) \<noteq> (- fst (snake_direction ex_down), - snd (snake_direction ex_down)) \<and>
   \<not> move_lock (update_direction ex_down (0, 1))"
  by (simp add: ex_down_def update_direction_def KEY_DICT_def)

text \<open>
  C4. In every state whose direction is not the zero vector, \<open>update_direction\<close> with
  the exact reverse (both axes negated) returns the state unchanged: the direction
  stays, the move lock is not set, nothing else changes.
\<close>

theorem update_direction_reverse_rejected:
  "snake_direction s \<noteq> (0, 0) \<Longrightarrow>
   update_direction s (- fst (snake_direction s), - snd (snake_direction s)) = s"
  by (auto simp: update_direction_def Let_def)

theorem update_direction_reverse_rejected_witness:
  "snake_direction ex_down \<noteq> (0, 0) \<and> update_direction ex_down (0, - 1) = ex_down"
proof -
  have a: "snake_direction ex_down \<noteq> (0, 0)" by (simp add: ex_down_def)
  have "(- fst (snake_direction ex_down), - snd (snake_direction ex_down)) = (0, - 1)"
    by (simp add: ex_down_def)
  with update_direction_reverse_rejected[OF a] a show ?thesis by simp
qed

text \<open>
  C5, as amended. While the move lock is set, any number of further
  \<open>update_direction\<close> calls leaves the state as it is. Every returning \<open>next\<close> hands back a
  state with the lock clear and the direction kept, so that a following call with a
  perpendicular unit vector is accepted: it sets the direction and the lock.
\<close>

theorem move_lock_sequencing:
  "(move_lock s \<longrightarrow> fold (\<lambda>d t. update_direction t d) ds s = s) \<and>
   (SnakeBoard_next s rng = Some (Inr (ret, s')) \<longrightarrow>
      \<not> move_lock s' \<and> snake_direction s' = snake_direction s \<and>
      (snake_direction s \<in> set KEY_DICT \<and> d \<in> set KEY_DICT \<and> d \<noteq> snake_direction s \<and>
       d \<noteq> (- fst (snake_direction s), - snd (snake_direction s)) \<longrightarrow>
       update_direction s' d = s'\<lparr>snake_direction := d, move_lock := True\<rparr>))"
proof (intro conjI impI)
  assume "move_lock s"
  then show "fold (\<lambda>d t. update_direction t d) ds s = s" by (rule locked_fold)
next
  assume n: "SnakeBoard_next s rng = Some (Inr (ret, s'))"
  from next_lock[OF n] show "\<not> move_lock s'" by simp
  from next_lock[OF n] show "snake_direction s' = snake_direction s" by simp
next
  assume n: "SnakeBoard_next s rng = Some (Inr (ret, s'))"
    and d: "snake_direction s \<in> set KEY_DICT \<and> d \<in> set KEY_DICT \<and> d \<noteq> snake_direction s \<and>
      d \<noteq> (- fst (snake_direction s), - snd (snake_direction s))"
  from next_lock[OF n] have l: "\<not> move_lock s'" "snake_direction s' = snake_direction s"
    by simp_all
  with d show "update_direction s' d = s'\<lparr>snake_direction := d, move_lock := True\<rparr>"
    by (auto simp: update_direction_def Let_def KEY_DICT_def)
qed

theorem move_lock_sequencing_witness:
  "move_lock (ex_down\<lparr>move_lock := True\<rparr>) \<and>
   fold (\<lambda>d t. update_direction t d) [(1, 0), (- 1, 0)] (ex_down\<lparr>move_lock := True\<rparr>)
     = ex_down\<lparr>move_lock := True\<rparr> \<and>
   SnakeBoard_next (ex_down\<lparr>move_lock := True\<rparr>) [] = Some (Inr (PyNone, ex_down_moved)) \<and>
   update_direction ex_down_moved (1, 0)
     = ex_down_moved\<lparr>snake_direction := (1, 0), move_lock := True\<rparr>"
proof -
  have a: "move_lock (ex_down\<lparr>move_lock := True\<rparr>)" by simp
  have b: "snake_direction (ex_down\<lparr>move_lock := True\<rparr>) \<in> set KEY_DICT \<and>
     (1, 0) \<in> set KEY_DICT \<and> (1, 0) \<noteq> snake_direction (ex_down\<lparr>move_lock := True\<rparr>) \<and>
     (1, 0) \<noteq> (- fst (snake_direction (ex_down\<lparr>move_lock := True\<rparr>)),
                - snd (snake_direction (ex_down\<lparr>move_lock := True\<rparr>)))"
    by (simp add: ex_down_def KEY_DICT_def)
  from move_lock_sequencing[of "ex_down\<lparr>move_lock := True\<rparr>" "[(1, 0), (- 1, 0)]" "[]"
      PyNone ex_down_moved "(1, 0)"] a b ex_down_next
  show ?thesis by blast
qed

text \<open>
  C5, the claim as written fails: after a tick that follows an accepted turn, the call
  re-choosing the current direction "down" (a unit vector that is not the reverse) is
  still a no-op and leaves the lock clear.
\<close>

theorem move_lock_same_direction_counterexample:
  "SnakeBoard_next (ex_down\<lparr>move_lock := True\<rparr>) [] = Some (Inr (PyNone, ex_down_moved)) \<and>
   (0, 1) \<in> set KEY_DICT \<and>
   (0, 1) \<noteq> (- fst (snake_direction ex_down_moved), - snd (snake_direction ex_down_moved)) \<and>
   update_direction ex_down_moved (0, 1) = ex_down_moved \<and>
   \<not> move_lock (update_direction ex_down_moved (0, 1))"
  using ex_down_next by (simp add: ex_down_moved_def update_direction_def KEY_DICT_def)

section \<open>Collisions and the value \<open>next\<close> returns\<close>

text \<open>
  C6. If the next head position (head plus direction) is outside the grid on either
  axis, or the tile there is \<open>S0\<close>, then \<open>next\<close> returns \<open>True\<close> and the state differs
  from the one before in the termination flag (set) and the move lock (cleared) only:
  board, history, head position and length are untouched.
\<close>

theorem collision_leaves_state:
  "(\<not> (0 \<le> snake_row s + snd (snake_direction s) \<and>
        snake_row s + snd (snake_direction s) < row s) \<or>
    \<not> (0 \<le> snake_col s + fst (snake_direction s) \<and>
        snake_col s + fst (snake_direction s) < col s)) \<or>
   board_get (board s) (snake_row s + snd (snake_direction s))
     (snake_col s + fst (snake_direction s)) = Inr ''S0'' \<Longrightarrow>
   SnakeBoard_next s rng = Some (Inr (PyBool True, s\<lparr>move_lock := False, ended := True\<rparr>))"
  by (auto simp: SnakeBoard_next_def next_step_def Let_def)

theorem collision_leaves_state_witness:
  "\<not> (0 \<le> snake_row ex_down_moved + snd (snake_direction ex_down_moved) \<and>
       snake_row ex_down_moved + snd (snake_direction ex_down_moved) < row ex_down_moved) \<and>
   SnakeBoard_next ex_down_moved [] =
     Some (Inr (PyBool True, ex_down_moved\<lparr>move_lock := False, ended := True\<rparr>))"
proof -
  have a: "\<not> (0 \<le> snake_row ex_down_moved + snd (snake_direction ex_down_moved) \<and>
       snake_row ex_down_moved + snd (snake_direction ex_down_moved) < row ex_down_moved)"
    by (simp add: ex_down_moved_def)
  with collision_leaves_state[of ex_down_moved "[]"] show ?thesis by blast
qed

lemma next_never_returns_False: "SnakeBoard_next s rng \<noteq> Some (Inr (PyBool False, s'))"
  by (auto simp: SnakeBoard_next_def split: sum.splits step.splits option.splits)

text \<open>
  C2. The docstring of \<open>next\<close> promises a bool, \<open>False\<close> when the game has not ended.
  On a tick that does not end the game the body runs off its end and the call returns
  \<open>None\<close>: here the snake of \<open>ex_down\<close> moves one tile down, and the value is \<open>PyNone\<close>.
\<close>

theorem next_returns_None:
  "SnakeBoard_next ex_down [] =
     Some (Inr (PyNone, ex_down\<lparr>board := [[''N'', ''A''], [''S1'', ''N'']], snake_row := 1,
                         snake := [(0, 0), (1, 0)]\<rparr>))"
  by (simp add: SnakeBoard_next_def next_step_def ex_down_def Let_def board_get_def
      board_set_def getitem_def setitem_def py_index_def)

section \<open>The snake on the board\<close>

lemma ex_idle_eval: "SnakeBoard_next ex_init [] = Some (Inr (PyNone, ex_idle))"
  by code_simp

lemma ex_right_eval: "update_direction ex_init (1, 0) = ex_right"
  by code_simp

lemma ex_grown_eval: "SnakeBoard_next ex_right [1, 1] = Some (Inr (PyNone, ex_grown))"
  by code_simp

lemma ex_three_eval:
  "SnakeBoard_next (update_direction ex_grown (0, 1)) [1, 0] = Some (Inr (PyNone, ex_three))"
  by code_simp

lemma ex_full_eval: "update_direction ex_three (- 1, 0) = ex_full"
  by code_simp

lemma ex_filled_eval: "next_step ex_full = Inr (Moved True ex_filled)"
  by code_simp

lemma ex_cells_eval:
  "snake_cells ex_idle = []" "tagged ex_idle ''S1'' = []" "tagged ex_filled ''N'' = []"
  "live ex_idle = [(0, 0)]"
  by code_simp+

lemma reachable_ex_init: "reachable ex_init"
  using ex_init_eval by (rule reach_init)

lemma reachable_ex_idle: "reachable ex_idle"
proof -
  have "\<not> ended ex_idle" by (simp add: ex_idle_def)
  from reach_tick[OF reachable_ex_init ex_idle_eval this] show ?thesis .
qed

lemma key_right: "(1, 0) \<in> set KEY_DICT" "(0, 1) \<in> set KEY_DICT" "(- 1, 0) \<in> set KEY_DICT"
  by (simp_all add: KEY_DICT_def)

lemma reachable_ex_full: "reachable ex_full"
proof -
  from reach_turn[OF reachable_ex_init key_right(1)] have a: "reachable ex_right"
    by (simp add: ex_right_eval)
  have b: "\<not> ended ex_grown" by (simp add: ex_grown_def)
  from reach_tick[OF a ex_grown_eval b] have c: "reachable ex_grown" .
  from reach_turn[OF c key_right(2)] have d: "reachable (update_direction ex_grown (0, 1))" .
  have e: "\<not> ended ex_three" by (simp add: ex_three_def)
  from reach_tick[OF d ex_three_eval e] have f: "reachable ex_three" .
  from reach_turn[OF f key_right(3)] show ?thesis by (simp add: ex_full_eval)
qed

lemma moving_ex_grown: "reachable_moving ex_grown"
proof -
  have "reachable_moving ex_init" using ex_init_eval by (rule moving_init)
  from moving_turn[OF this key_right(1)] have r: "reachable_moving ex_right"
    by (simp add: ex_right_eval)
  have z: "snake_direction ex_right \<noteq> (0, 0)" and e: "\<not> ended ex_grown"
    by (simp_all add: ex_right_def ex_grown_def)
  from moving_tick[OF r z ex_grown_eval e] show ?thesis .
qed

lemma set_live:
  assumes "game_inv s"
  shows "set (live s) = insert (snake_row s, snake_col s) (set (butlast (live s)))"
proof -
  note lf = live_facts[OF assms]
  from append_butlast_last_id[OF lf(1)] lf(2)
  have "live s = butlast (live s) @ [(snake_row s, snake_col s)]" by simp
  then have "set (live s) = set (butlast (live s) @ [(snake_row s, snake_col s)])" by simp
  then show ?thesis by simp
qed

text \<open>
  C1, as amended. In every state reached from construction by \<open>update_direction\<close> calls
  with the four directions and by non-terminating \<open>next\<close> calls made once a direction is
  set: the cells tagged \<open>S1\<close> or \<open>S0\<close> are exactly the last \<open>snake_length\<close> entries of the
  history, they are \<open>snake_length\<close> many, the one \<open>S1\<close> is at the head, which is the last
  entry, no earlier entry is tagged, and the history has at most \<open>snake_length + 1\<close>
  entries.
\<close>

theorem snake_representation:
  assumes "reachable_moving s"
  shows "set (snake_cells s) = set (live s) \<and>
         card (set (snake_cells s)) = nat (snake_length s) \<and>
         int (length (live s)) = snake_length s \<and>
         tagged s ''S1'' = [(snake_row s, snake_col s)] \<and>
         last (live s) = (snake_row s, snake_col s) \<and>
         (\<forall>p\<in>set (stale s). p \<notin> set (snake_cells s)) \<and>
         int (length (snake s)) \<le> snake_length s + 1"
proof -
  from reachable_moving_inv[OF assms] have inv: "game_inv s" and ht: "head_tagged s" by simp_all
  note d = game_invD[OF inv] and lf = live_facts[OF inv]
  define h where "h = (snake_row s, snake_col s)"
  have th: "tile (board s) h = ''S1''" and ds: "distinct (snake s)"
    using ht by (simp_all add: head_tagged_def h_def)
  have s1: "(tile (board s) q = ''S1'') = (q = h)" if "in_grid (row s) (col s) q" for q
    using d(11) that th unfolding h_def by blast
  have s0: "(tile (board s) q = ''S0'') = (q \<in> set (butlast (live s)))"
    if "in_grid (row s) (col s) q" for q using d(10) that by blast
  have sl: "set (live s) = insert h (set (butlast (live s)))"
    unfolding h_def using inv by (rule set_live)
  have lg: "in_grid (row s) (col s) q" if "q \<in> set (live s)" for q
    using d(7) lf(4) that by blast
  have cells: "set (snake_cells s) = set (live s)"
  proof (intro set_eqI iffI)
    fix q assume "q \<in> set (snake_cells s)"
    then have g: "in_grid (row s) (col s) q"
      and t: "tile (board s) q = ''S1'' \<or> tile (board s) q = ''S0''"
      by (simp_all add: snake_cells_tile[OF d(3)] all_cells_set)
    from t s1[OF g] s0[OF g] sl show "q \<in> set (live s)" by auto
  next
    fix q assume q: "q \<in> set (live s)"
    note g = lg[OF q]
    from q sl s1[OF g] s0[OF g] have "tile (board s) q = ''S1'' \<or> tile (board s) q = ''S0''"
      by auto
    with g show "q \<in> set (snake_cells s)"
      by (simp add: snake_cells_tile[OF d(3)] all_cells_set)
  qed
  have "card (set (live s)) = length (live s)" using d(9) by (rule distinct_card)
  with cells lf(3) have card: "card (set (snake_cells s)) = nat (snake_length s)" by simp
  have tg: "tagged s ''S1'' = [h]"
    unfolding tagged_tile[OF d(3)]
  proof (rule filter_single[OF all_cells_distinct])
    show "h \<in> set (all_cells s)" using lf(5) by (simp add: all_cells_set h_def)
    fix q assume "q \<in> set (all_cells s)"
    then have "in_grid (row s) (col s) q" by (simp add: all_cells_set)
    then show "(tile (board s) q = ''S1'') = (q = h)" by (rule s1)
  qed
  have "snake s = stale s @ live s" by (simp add: stale_def live_def)
  with ds have "distinct (stale s @ live s)" by simp
  then have "set (stale s) \<inter> set (live s) = {}" by simp
  with cells have st: "\<forall>p\<in>set (stale s). p \<notin> set (snake_cells s)" by blast
  from cells card lf(3) tg lf(2) st d(6) show ?thesis by (simp add: h_def)
qed

theorem snake_representation_witness:
  "reachable_moving ex_grown \<and> set (snake_cells ex_grown) = {(0, 0), (0, 1)} \<and>
   card (set (snake_cells ex_grown)) = 2 \<and> tagged ex_grown ''S1'' = [(0, 1)] \<and>
   int (length (snake ex_grown)) \<le> snake_length ex_grown + 1"
proof -
  have l: "live ex_grown = [(0, 0), (0, 1)]" by code_simp
  have f: "snake_length ex_grown = 2" "snake_row ex_grown = 0" "snake_col ex_grown = 1"
    by (simp_all add: ex_grown_def)
  note t = snake_representation[OF moving_ex_grown]
  from t have "set (snake_cells ex_grown) = set (live ex_grown)" by (rule conjunct1)
  then have a: "set (snake_cells ex_grown) = {(0, 0), (0, 1)}" by (simp add: l)
  from t have "card (set (snake_cells ex_grown)) = nat (snake_length ex_grown)" by blast
  then have b: "card (set (snake_cells ex_grown)) = 2" by (simp add: f)
  from t have "tagged ex_grown ''S1'' = [(snake_row ex_grown, snake_col ex_grown)]" by blast
  then have c: "tagged ex_grown ''S1'' = [(0, 1)]" by (simp only: f)
  from t have d: "int (length (snake ex_grown)) \<le> snake_length ex_grown + 1" by blast
  from moving_ex_grown a b c d show ?thesis by blast
qed

text \<open>
  C1, the claim as written fails: a \<open>next\<close> called before any direction is chosen does
  not end the game and leaves no cell tagged \<open>S1\<close> or \<open>S0\<close>, with length 1 (the second
  loop of \<open>next\<close> clears the head's own tile).
\<close>

theorem snake_representation_counterexample:
  "reachable ex_idle \<and> snake_length ex_idle = 1 \<and> live ex_idle = [(0, 0)] \<and>
   snake_cells ex_idle = [] \<and> tagged ex_idle ''S1'' = []"
  using reachable_ex_idle ex_cells_eval by (simp add: ex_idle_def)

text \<open>
  C10. In every reachable state whose direction is still the zero vector the game has
  not ended, and \<open>next\<close> returns with the termination flag still false and the head
  where it was.
\<close>

theorem idle_tick:
  assumes "reachable s" "snake_direction s = (0, 0)"
  shows "\<not> ended s \<and> (\<exists>s'. SnakeBoard_next s rng = Some (Inr (PyNone, s')) \<and> \<not> ended s' \<and>
           snake_row s' = snake_row s \<and> snake_col s' = snake_col s)"
proof -
  from reachable_inv[OF assms(1)] have inv: "game_inv s" .
  note d = game_invD[OF inv] and lf = live_facts[OF inv]
  define new where "new = (snake_row s + snd (snake_direction s), snake_col s + fst (snake_direction s))"
  have nh: "new = (snake_row s, snake_col s)" by (simp add: new_def assms(2))
  have ng: "in_grid (row s) (col s) new" using lf(5) by (simp add: nh)
  have nc: "tile (board s) new \<noteq> ''S0''" using d(12) by (auto simp: nh)
  have ate: "False = (new \<noteq> (snake_row s, snake_col s) \<and> tile (board s) new = ''A'')"
    by (simp add: nh)
  from game_inv_moved[OF inv new_def ng nc ate] obtain s1 where
    st: "next_step s = Inr (Moved False s1)" and i1: "game_inv s1"
    and hd1: "(snake_row s1, snake_col s1) = new" by blast
  from next_of_step(2)[OF st] have "SnakeBoard_next s rng = Some (Inr (PyNone, s1))" .
  moreover from game_invD(14)[OF i1] have "\<not> ended s1" .
  moreover from hd1 nh have "snake_row s1 = snake_row s \<and> snake_col s1 = snake_col s" by simp
  ultimately show ?thesis using d(14) by blast
qed

theorem idle_tick_witness:
  "reachable ex_init \<and> snake_direction ex_init = (0, 0) \<and> \<not> ended ex_init \<and>
   SnakeBoard_next ex_init [] = Some (Inr (PyNone, ex_idle)) \<and> \<not> ended ex_idle \<and>
   snake_row ex_idle = snake_row ex_init \<and> snake_col ex_idle = snake_col ex_init"
proof -
  have z: "snake_direction ex_init = (0, 0)" by (simp add: ex_init_def)
  from idle_tick[OF reachable_ex_init z, of "[]"] obtain s' where
    e: "\<not> ended ex_init" and n: "SnakeBoard_next ex_init [] = Some (Inr (PyNone, s'))"
    and r: "\<not> ended s'" "snake_row s' = snake_row ex_init" "snake_col s' = snake_col ex_init"
    by blast
  from n ex_idle_eval have "s' = ex_idle" by simp
  with r have "\<not> ended ex_idle" "snake_row ex_idle = snake_row ex_init"
    "snake_col ex_idle = snake_col ex_init" by simp_all
  with reachable_ex_init z e ex_idle_eval show ?thesis by blast
qed

section \<open>Eating the apple\<close>

lemma no_empty_cell:
  assumes w: "wf_board (row t) (col t) (board t)" and e: "tagged t ''N'' = []"
    and g: "in_grid (row t) (col t) p"
  shows "tile (board t) p \<noteq> ''N''"
proof -
  from e have "filter (\<lambda>q. tile (board t) q = ''N'') (all_cells t) = []"
    by (simp add: tagged_tile[OF w])
  then have "\<forall>q\<in>set (all_cells t). tile (board t) q \<noteq> ''N''" by (simp add: filter_empty_conv)
  moreover from g have "p \<in> set (all_cells t)" by (simp add: all_cells_set)
  ultimately show ?thesis by blast
qed

lemma next_saturated:
  assumes st: "next_step s = Inr (Moved True t)"
    and w: "wf_board (row t) (col t) (board t)" and n: "1 \<le> row t" and m: "1 \<le> col t"
    and e: "tagged t ''N'' = []"
  shows "SnakeBoard_next s rng = None"
proof (cases "generate_apple t rng")
  case None
  with next_of_step(3)[OF st, of rng] show ?thesis by simp
next
  case (Some y)
  from generate_apple_result[OF w n m Some] obtain p where
    "in_grid (row t) (col t) p" "tile (board t) p = ''N''" by blast
  with no_empty_cell[OF w e] show ?thesis by blast
qed

text \<open>
  C8, as amended. In every reachable state, if the cell the head moves onto lies on the
  grid and is tagged \<open>A\<close>, the move eats: the length grows by exactly one and the old
  food cell is tagged \<open>S1\<close> and is the head. Whenever \<open>next\<close> then returns, the length is
  still one more, the old food cell is still \<open>S1\<close>, and the new apple is on a cell of the
  grid that was \<open>N\<close> immediately before \<open>generate_apple\<close> ran and is \<open>A\<close> now. It returns
  (with \<open>None\<close>) as soon as a pair of draws lands on a cell that is \<open>N\<close> after the move.
\<close>

theorem food_consumption:
  assumes r: "reachable s"
    and nr: "nr = snake_row s + snd (snake_direction s)"
    and nc: "nc = snake_col s + fst (snake_direction s)"
    and b: "0 \<le> nr \<and> nr < row s \<and> 0 \<le> nc \<and> nc < col s"
    and a: "board_get (board s) nr nc = Inr ''A''"
  shows "\<exists>s1. next_step s = Inr (Moved True s1) \<and>
           snake_length s1 = snake_length s + 1 \<and> snake_row s1 = nr \<and> snake_col s1 = nc \<and>
           board_get (board s1) nr nc = Inr ''S1'' \<and>
           (\<forall>rng ret s'. SnakeBoard_next s rng = Some (Inr (ret, s')) \<longrightarrow>
              snake_length s' = snake_length s + 1 \<and>
              board_get (board s') nr nc = Inr ''S1'' \<and>
              board_get (board s1) (apple_row s') (apple_col s') = Inr ''N'' \<and>
              board_get (board s') (apple_row s') (apple_col s') = Inr ''A'' \<and>
              (apple_row s', apple_col s') \<in> set (all_cells s)) \<and>
           (\<forall>pre a b post. even (length pre) \<and>
              board_get (board s1) (int a mod row s) (int b mod col s) = Inr ''N'' \<longrightarrow>
              (\<exists>s'. SnakeBoard_next s (pre @ a # b # post) = Some (Inr (PyNone, s'))))"
proof -
  from reachable_inv[OF r] have inv: "game_inv s" .
  note d = game_invD[OF inv] and lf = live_facts[OF inv]
  define new where "new = (snake_row s + snd (snake_direction s), snake_col s + fst (snake_direction s))"
  have nn: "new = (nr, nc)" by (simp add: new_def nr nc)
  have ng: "in_grid (row s) (col s) new" using b by (simp add: nn in_grid_def)
  from board_get_in[OF d(3) ng] a have ta: "tile (board s) new = ''A''" by (simp add: nn)
  then have ns: "tile (board s) new \<noteq> ''S0''" by simp
  from d(12) ta have nh: "new \<noteq> (snake_row s, snake_col s)" by auto
  with ta have ate: "True = (new \<noteq> (snake_row s, snake_col s) \<and> tile (board s) new = ''A'')"
    by simp
  from game_inv_moved[OF inv new_def ng ns ate] nh obtain s1 where
    st: "next_step s = Inr (Moved True s1)" and i1: "game_inv s1"
    and hd1: "(snake_row s1, snake_col s1) = new"
    and l1: "snake_length s1 = snake_length s + 1"
    and rc: "row s1 = row s" "col s1 = col s"
    and t1: "tile (board s1) new = ''S1''"
    by auto
  note d1 = game_invD[OF i1]
  from d1(1,2) have dims: "1 \<le> row s1" "1 \<le> col s1" by simp_all
  have ng1: "in_grid (row s1) (col s1) new" using ng by (simp add: rc)
  from hd1 t1 have h1: "tile (board s1) (snake_row s1, snake_col s1) = ''S1''" by simp
  have c1: "board_get (board s1) nr nc = Inr ''S1''"
    using board_get_in[OF d1(3) ng1] t1 by (simp add: nn)
  have c2: "snake_length s' = snake_length s + 1 \<and>
              board_get (board s') nr nc = Inr ''S1'' \<and>
              board_get (board s1) (apple_row s') (apple_col s') = Inr ''N'' \<and>
              board_get (board s') (apple_row s') (apple_col s') = Inr ''A'' \<and>
              (apple_row s', apple_col s') \<in> set (all_cells s)"
    if n: "SnakeBoard_next s rng = Some (Inr (ret, s'))" for rng ret s'
  proof -
    from n next_of_step(3)[OF st, of rng] obtain y where y: "generate_apple s1 rng = Some y"
      by (cases "generate_apple s1 rng") auto
    from generate_apple_result[OF d1(3) dims y] obtain p where
      p: "in_grid (row s1) (col s1) p" "tile (board s1) p = ''N''"
      and yy: "y = Inr (s1\<lparr>board := put (board s1) p ''A'', apple_row := fst p, apple_col := snd p\<rparr>)"
      by blast
    from n next_of_step(3)[OF st, of rng] y yy
    have s': "s' = s1\<lparr>board := put (board s1) p ''A'', apple_row := fst p, apple_col := snd p\<rparr>"
      by simp
    note ap = game_inv_apple[OF i1 h1 p s']
    have f: "row s' = row s1" "col s' = col s1" "snake_row s' = snake_row s1"
      "snake_col s' = snake_col s1" "snake_length s' = snake_length s1"
      "apple_row s' = fst p" "apple_col s' = snd p"
      by (simp_all add: s')
    have w': "wf_board (row s1) (col s1) (board s')" using game_invD(3)[OF ap(1)] by (simp add: f)
    have "board_get (board s') nr nc = Inr ''S1''"
      using board_get_in[OF w' ng1] ap(2) hd1 by (simp add: nn f)
    moreover have "board_get (board s1) (apple_row s') (apple_col s') = Inr ''N''"
      using board_get_in[OF d1(3) p(1)] p(2) by (simp add: f)
    moreover have "board_get (board s') (apple_row s') (apple_col s') = Inr ''A''"
      using board_get_in[OF w' p(1)] ap(3) by (simp add: f)
    moreover have "(apple_row s', apple_col s') \<in> set (all_cells s)"
      using p(1) by (simp add: all_cells_set f rc)
    ultimately show ?thesis using l1 by (simp add: f)
  qed
  have c3: "\<exists>s'. SnakeBoard_next s (pre @ a # b # post) = Some (Inr (PyNone, s'))"
    if ev: "even (length pre)"
      and hit: "board_get (board s1) (int a mod row s) (int b mod col s) = Inr ''N''"
    for pre a b post
  proof -
    have g: "in_grid (row s1) (col s1) (int a mod row s1, int b mod col s1)"
      using dims by (rule mod_in_grid)
    from board_get_in[OF d1(3) g] hit
    have "tile (board s1) (int a mod row s1, int b mod col s1) = ''N''" by (simp add: rc)
    from generate_apple_hits[OF d1(3) dims ev this, of post] obtain s' where
      "generate_apple s1 (pre @ a # b # post) = Some (Inr s')" by blast
    with next_of_step(3)[OF st, of "pre @ a # b # post"] show ?thesis by simp
  qed
  from hd1 have "snake_row s1 = nr" "snake_col s1 = nc" by (simp_all add: nn)
  with st l1 c1 c2 c3 show ?thesis by blast
qed

theorem food_consumption_witness:
  "reachable ex_right \<and> board_get (board ex_right) 0 1 = Inr ''A'' \<and>
   (\<exists>s1. next_step ex_right = Inr (Moved True s1) \<and> snake_length s1 = 2 \<and>
      board_get (board s1) 0 1 = Inr ''S1'' \<and>
      (\<exists>s'. SnakeBoard_next ex_right [0, 0, 1, 1] = Some (Inr (PyNone, s'))))"
proof -
  from reach_turn[OF reachable_ex_init key_right(1)] have r: "reachable ex_right"
    by (simp add: ex_right_eval)
  have pos: "(0::int) = snake_row ex_right + snd (snake_direction ex_right)"
    "(1::int) = snake_col ex_right + fst (snake_direction ex_right)"
    "(0::int) \<le> 0 \<and> 0 < row ex_right \<and> (0::int) \<le> 1 \<and> 1 < col ex_right"
    by (simp_all add: ex_right_def)
  have f: "snake_length ex_right = 1" "row ex_right = 2" "col ex_right = 2"
    by (simp_all add: ex_right_def)
  have a: "board_get (board ex_right) 0 1 = Inr ''A''" by code_simp
  from food_consumption[OF r pos a] obtain s1 where
    s1: "next_step ex_right = Inr (Moved True s1)" "snake_length s1 = snake_length ex_right + 1"
    "board_get (board s1) 0 1 = Inr ''S1''"
    and hits: "\<forall>pre a b post. even (length pre) \<and>
              board_get (board s1) (int a mod row ex_right) (int b mod col ex_right) = Inr ''N'' \<longrightarrow>
              (\<exists>s'. SnakeBoard_next ex_right (pre @ a # b # post) = Some (Inr (PyNone, s')))"
    by blast
  have "s1 = ex_grown\<lparr>board := [[''S0'', ''S1''], [''N'', ''N'']], apple_row := 0, apple_col := 1\<rparr>"
  proof -
    have "next_step ex_right =
      Inr (Moved True (ex_grown\<lparr>board := [[''S0'', ''S1''], [''N'', ''N'']], apple_row := 0, apple_col := 1\<rparr>))"
      by code_simp
    with s1(1) show ?thesis by simp
  qed
  then have "board_get (board s1) (int 1 mod row ex_right) (int 1 mod col ex_right) = Inr ''N''"
    by (simp add: f board_get_def getitem_def py_index_def)
  with hits[rule_format, of "[0, 0]" 1 1 "[]"]
  have "\<exists>s'. SnakeBoard_next ex_right [0, 0, 1, 1] = Some (Inr (PyNone, s'))" by simp
  moreover from s1(2) have "snake_length s1 = 2" by (simp add: f)
  ultimately show ?thesis using r a s1(1,3) by blast
qed

text \<open>
  C8, the claim as written fails: in \<open>ex_full\<close>, a reachable state, the head moves onto
  the apple on the last free cell; after the move no cell is \<open>N\<close>, the loop of
  \<open>generate_apple\<close> can never leave, and \<open>next\<close> returns for no sequence of draws.
\<close>

theorem food_consumption_counterexample:
  "reachable ex_full \<and>
   snake_row ex_full + snd (snake_direction ex_full) = 1 \<and>
   snake_col ex_full + fst (snake_direction ex_full) = 0 \<and>
   board_get (board ex_full) 1 0 = Inr ''A'' \<and>
   (\<forall>rng. SnakeBoard_next ex_full rng = None)"
proof -
  have w: "wf_board (row ex_filled) (col ex_filled) (board ex_filled)"
    by (simp add: ex_filled_def wf_board_def)
  have d: "1 \<le> row ex_filled" "1 \<le> col ex_filled" by (simp_all add: ex_filled_def)
  have "SnakeBoard_next ex_full rng = None" for rng
    using next_saturated[OF ex_filled_eval w d ex_cells_eval(3)] .
  moreover have "board_get (board ex_full) 1 0 = Inr ''A''" by code_simp
  moreover have "snake_row ex_full + snd (snake_direction ex_full) = 1"
    "snake_col ex_full + fst (snake_direction ex_full) = 0" by (simp_all add: ex_full_def)
  ultimately show ?thesis using reachable_ex_full by blast
qed

end
